theory Spec2Isabelle
  imports Complex_Main "HOL-Library.Sublist" "HOL-Library.AList" "HOL-Library.Log_Nat"
begin

section \<open>Data model\<close>

text \<open>
  A row of an alignment block, as both scripts read it: the sequence identifier
  (\<open>rec.id\<close> / \<open>comp.src\<close>), the gapped alignment string, and the declared start and
  size on the row's own genome.  A block is the list of its rows in file order.
\<close>

record seqrec =
  rid :: string
  rseq :: string
  rstart :: int
  rsize :: int

type_synonym alignment = "seqrec list"

text \<open>An interval of the region index of \<open>check_erv_presence.py\<close>: begin, end, data.\<close>

record interval =
  iv_begin :: int
  iv_end :: int
  iv_data :: string

type_synonym ltr_key = "string \<times> int \<times> int \<times> string"
type_synonym agg_key = "string \<times> int \<times> int \<times> string \<times> string"

text \<open>
  The two dictionaries of the scan.  A Python dict keeps insertion order and an
  assignment to a present key keeps its place, which is what \<open>AList.update\<close> does.
\<close>

record scan_state =
  agg_results :: "(agg_key \<times> int) list"
  ltr_lengths :: "(ltr_key \<times> int) list"

datatype error = IndexError | FileNotFoundError

text \<open>One output row of the summary table.\<close>

record coverage_row =
  row_chrom :: string
  row_start :: int
  row_end :: int
  row_ltr :: string
  row_species :: string
  row_aligned_bases :: int
  row_ltr_len :: int
  row_coverage :: rat

section \<open>check\_erv\_presence.py\<close>

subsection \<open>Step 1: the region index\<close>

text \<open>
  \<open>str.replace("chr", "")\<close>: every occurrence, scanning from the left, not only a
  leading one (the comment in \<open>filter_maf.py\<close> speaks of a prefix).
\<close>

fun replace_chr :: "string \<Rightarrow> string" where
  "replace_chr (a # b # c # rest) =
     (if [a, b, c] = ''chr'' then replace_chr rest else a # replace_chr (b # c # rest))"
| "replace_chr s = s"

text \<open>
  \<open>IntervalTree.addi\<close>: the tree is a set of intervals, so adding an interval that is
  already there changes nothing.  The list keeps the order of first insertion; the
  library iterates in an order of its own, which only permutes the output rows.
\<close>

definition addi :: "int \<Rightarrow> int \<Rightarrow> string \<Rightarrow> interval list \<Rightarrow> interval list" where
  "addi b e d tree =
     (let iv = \<lparr>iv_begin = b, iv_end = e, iv_data = d\<rparr>
      in if iv \<in> set tree then tree else tree @ [iv])"

text \<open>
  One coordinate string of the region list, after \<open>loc.split(":", 1)\<close> and
  \<open>int(float(x))\<close>: the chromosome name, start, end, and the string itself, which
  becomes the interval's data.  Reading decimal text is outside the model.
\<close>

definition load_loc ::
  "string \<times> int \<times> int \<times> string \<Rightarrow> (string \<times> interval list) list
     \<Rightarrow> (string \<times> interval list) list" where
  "load_loc = (\<lambda>(chrom_name, start, end, loc) regions.
     let chrom = replace_chr chrom_name;
         tree = (case map_of regions chrom of None \<Rightarrow> [] | Some t \<Rightarrow> t)
     in AList.update chrom (addi start end loc tree) regions)"

definition ltr_regions ::
  "(string \<times> int \<times> int \<times> string) list \<Rightarrow> (string \<times> interval list) list" where
  "ltr_regions locs = fold load_loc locs []"

text \<open>
  Modelled from the spec: the overlap query of the interval index, a library that is
  not part of the repository.  Section 4.1: the query returns every indexed range R
  with \<open>qstart < R.end AND R.start < qend\<close>.
\<close>

definition overlaps :: "interval \<Rightarrow> int \<Rightarrow> int \<Rightarrow> bool" where
  "overlaps R qstart qend \<longleftrightarrow> qstart < iv_end R \<and> iv_begin R < qend"

definition overlap :: "interval list \<Rightarrow> int \<Rightarrow> int \<Rightarrow> interval list" where
  "overlap tree qstart qend = filter (\<lambda>R. overlaps R qstart qend) tree"

subsection \<open>Step 2: the scan\<close>

text \<open>The walk over the anchor row: the list built so far and the counter \<open>gpos\<close>.\<close>

definition aln_step :: "char \<Rightarrow> int option list \<times> int \<Rightarrow> int option list \<times> int" where
  "aln_step base = (\<lambda>(aln_to_genome, gpos).
     if base \<noteq> CHR ''-'' then (aln_to_genome @ [Some gpos], gpos + 1)
     else (aln_to_genome @ [None], gpos))"

definition aln_walk :: "string \<Rightarrow> int \<Rightarrow> int option list \<times> int" where
  "aln_walk s human_start = fold aln_step s ([], human_start)"

definition aln_to_genome :: "string \<Rightarrow> int \<Rightarrow> int option list" where
  "aln_to_genome s human_start = fst (aln_walk s human_start)"

definition ltr_indices :: "int option list \<Rightarrow> interval \<Rightarrow> nat list" where
  "ltr_indices a2g ov =
     map fst (filter (\<lambda>(i, g). case g of None \<Rightarrow> False
                                | Some p \<Rightarrow> iv_begin ov \<le> p \<and> p < iv_end ov)
                     (enumerate 0 a2g))"

text \<open>\<open>sum(1 for b in subseq if b != "-")\<close>\<close>

definition nongap_count :: "string \<Rightarrow> int" where
  "nongap_count s = int (length (filter (\<lambda>b. b \<noteq> CHR ''-'') s))"

text \<open>\<open>rec.id.split(".")[0]\<close> and \<open>r.id.startswith("hg38.")\<close>\<close>

definition species_of :: "string \<Rightarrow> string" where
  "species_of ident = takeWhile (\<lambda>c. c \<noteq> CHR ''.'') ident"

definition human_seq :: "alignment \<Rightarrow> seqrec option" where
  "human_seq alignment = find (\<lambda>r. prefix ''hg38.'' (rid r)) alignment"

text \<open>Reading a \<open>defaultdict(int)\<close>: a missing key reads as 0.\<close>

definition get0 :: "('k \<times> int) list \<Rightarrow> 'k \<Rightarrow> int" where
  "get0 d k = (case map_of d k of None \<Rightarrow> 0 | Some v \<Rightarrow> v)"

text \<open>A loop whose body may raise: the first exception ends it.\<close>

fun fold_err :: "('a \<Rightarrow> 's \<Rightarrow> error + 's) \<Rightarrow> 'a list \<Rightarrow> 's \<Rightarrow> error + 's" where
  "fold_err f [] s = Inr s"
| "fold_err f (x # xs) s =
     (case f x s of Inl e \<Rightarrow> Inl e | Inr s' \<Rightarrow> fold_err f xs s')"

text \<open>
  The body of \<open>for rec in alignment\<close>.  \<open>rec.seq[i]\<close> raises IndexError when the row is
  shorter than a selected column.
\<close>

definition rec_step ::
  "string \<Rightarrow> interval \<Rightarrow> nat list \<Rightarrow> seqrec \<Rightarrow> (agg_key \<times> int) list
     \<Rightarrow> error + (agg_key \<times> int) list" where
  "rec_step chrom ov idx r agg =
     (let species = species_of (rid r) in
      if species = ''hg38'' then Inr agg
      else if \<exists>i\<in>set idx. length (rseq r) \<le> i then Inl IndexError
      else
        let subseq = map (\<lambda>i. rseq r ! i) idx;
            aligned_bases = nongap_count subseq;
            key = (chrom, iv_begin ov, iv_end ov, iv_data ov, species)
        in Inr (AList.update key (get0 agg key + aligned_bases) agg))"

text \<open>The body of \<open>for ov in ltr_regions[chrom].overlap(human_start, human_end)\<close>.\<close>

definition region_step ::
  "string \<Rightarrow> alignment \<Rightarrow> seqrec \<Rightarrow> interval \<Rightarrow> scan_state \<Rightarrow> error + scan_state" where
  "region_step chrom alignment hs ov st =
     (let ltr_name = iv_data ov;
          ltr_len = iv_end ov - iv_begin ov;
          st1 = st\<lparr>ltr_lengths :=
                  AList.update (chrom, iv_begin ov, iv_end ov, ltr_name) ltr_len (ltr_lengths st)\<rparr>;
          idx = ltr_indices (aln_to_genome (rseq hs) (rstart hs)) ov
      in if idx = [] then Inr st1
         else (case fold_err (rec_step chrom ov idx) alignment (agg_results st1) of
                 Inl e \<Rightarrow> Inl e
               | Inr agg \<Rightarrow> Inr (st1\<lparr>agg_results := agg\<rparr>)))"

text \<open>The body of \<open>for alignment in AlignIO.parse(handle, "maf")\<close>.\<close>

definition block_step ::
  "string \<Rightarrow> interval list \<Rightarrow> alignment \<Rightarrow> scan_state \<Rightarrow> error + scan_state" where
  "block_step chrom tree alignment st =
     (case human_seq alignment of
        None \<Rightarrow> Inr st
      | Some hs \<Rightarrow>
          let human_start = rstart hs;
              human_end = human_start + rsize hs
          in fold_err (region_step chrom alignment hs)
               (overlap tree human_start human_end) st)"

text \<open>
  The body of \<open>for chrom in ltr_regions\<close>.  \<open>mafs chrom\<close> is the content of
  \<open>chr{chrom}.ERV.maf.gz\<close>, or \<open>None\<close> when the file does not exist.
\<close>

definition chrom_step ::
  "(string \<Rightarrow> alignment list option) \<Rightarrow> string \<times> interval list \<Rightarrow> scan_state
     \<Rightarrow> error + scan_state" where
  "chrom_step mafs = (\<lambda>(chrom, tree) st.
     case mafs chrom of
       None \<Rightarrow> Inr st
     | Some blocks \<Rightarrow> fold_err (block_step chrom tree) blocks st)"

definition init_state :: scan_state where
  "init_state = \<lparr>agg_results = [], ltr_lengths = []\<rparr>"

definition scan ::
  "(string \<times> interval list) list \<Rightarrow> (string \<Rightarrow> alignment list option) \<Rightarrow> error + scan_state" where
  "scan regions mafs = fold_err (chrom_step mafs) regions init_state"

subsection \<open>Step 3: the summary table\<close>

text \<open>
  Python's floats are binary64 numbers.  A double is kept here as the rational it
  stands for, so that the two roundings of the summary are the ones the interpreter
  performs.  Rounding to the nearest integer, ties to even:
\<close>

definition round_half_even :: "rat \<Rightarrow> int" where
  "round_half_even y =
     (let f = \<lfloor>y\<rfloor>; d = y - of_int f
      in if d < 1 / 2 then f else if 1 / 2 < d then f + 1
         else if even f then f else f + 1)"

definition pow2 :: "int \<Rightarrow> rat" where
  "pow2 n = (if 0 \<le> n then 2 ^ nat n else 1 / 2 ^ nat (- n))"

text \<open>
  The double nearest to \<open>a / b\<close> for positive \<open>a\<close> and \<open>b\<close>: with \<open>e\<close> the binary
  exponent of the quotient, the quotient is rounded, ties to even, to a multiple of
  \<open>2 ^ (e - 52)\<close>, of \<open>2 ^ -1074\<close> in the subnormal range.  Above the range of the
  doubles Python raises OverflowError; that takes a quotient of \<open>2 ^ 1024\<close>, more
  aligned bases than any input held in memory has, and the exponent is left unbounded.
\<close>

definition nearest_double :: "int \<Rightarrow> int \<Rightarrow> rat" where
  "nearest_double a b =
     (let x = of_int a / of_int b;
          d = bitlen a - bitlen b;
          e = (if pow2 d \<le> x then d else d - 1);
          p = max (e - 52) (- 1074)
      in of_int (round_half_even (x / pow2 p)) * pow2 p)"

text \<open>
  \<open>a / b\<close> on two Python ints: the correctly rounded double.  The summary divides only
  by a positive length; at \<open>b = 0\<close> Python raises ZeroDivisionError.
\<close>

definition true_div :: "int \<Rightarrow> int \<Rightarrow> rat" where
  "true_div a b =
     (if a = 0 then 0
      else if (0 < a) = (0 < b) then nearest_double \<bar>a\<bar> \<bar>b\<bar>
      else - nearest_double \<bar>a\<bar> \<bar>b\<bar>)"

text \<open>
  \<open>round(coverage, 3)\<close> on a double: the exact value of the double is rounded to three
  decimal places, ties to even.  The result is given as that decimal; the interpreter
  holds the double nearest to it, which is written out as the same decimal.
\<close>

definition round3 :: "rat \<Rightarrow> rat" where
  "round3 x = of_int (round_half_even (x * 1000)) / 1000"

definition summary_row :: "(ltr_key \<times> int) list \<Rightarrow> agg_key \<times> int \<Rightarrow> coverage_row" where
  "summary_row lens = (\<lambda>((chrom, start, end, ltr_name, species), aligned_bases).
     let ltr_len = (case map_of lens (chrom, start, end, ltr_name) of
                      None \<Rightarrow> 0 | Some l \<Rightarrow> l);
         coverage = (if ltr_len > 0 then true_div aligned_bases ltr_len else 0)
     in \<lparr>row_chrom = chrom, row_start = start, row_end = end, row_ltr = ltr_name,
         row_species = species, row_aligned_bases = aligned_bases,
         row_ltr_len = ltr_len, row_coverage = round3 coverage\<rparr>)"

definition records :: "scan_state \<Rightarrow> coverage_row list" where
  "records st = map (summary_row (ltr_lengths st)) (agg_results st)"

definition check_erv_presence ::
  "(string \<times> int \<times> int \<times> string) list \<Rightarrow> (string \<Rightarrow> alignment list option)
     \<Rightarrow> error + coverage_row list" where
  "check_erv_presence locs mafs =
     (case scan (ltr_regions locs) mafs of Inl e \<Rightarrow> Inl e | Inr st \<Rightarrow> Inr (records st))"

section \<open>filter\_maf.py\<close>

definition MARGINS :: int where
  "MARGINS = 2000"

text \<open>
  One line of the BED file after \<open>line.strip().split()\<close> and \<open>int\<close>: chromosome,
  start, end.  The index of this script keeps every interval it is given, in a
  \<open>defaultdict\<close> keyed by the chromosome name without \<open>chr\<close>.
\<close>

definition add_bed ::
  "string \<times> int \<times> int \<Rightarrow> (string \<times> (int \<times> int) list) list
     \<Rightarrow> (string \<times> (int \<times> int) list) list" where
  "add_bed = (\<lambda>(chrom_name, start, end) by_chr.
     let chrom = replace_chr chrom_name;
         tree = (case map_of by_chr chrom of None \<Rightarrow> [] | Some t \<Rightarrow> t)
     in AList.update chrom (tree @ [(start - MARGINS, end + MARGINS)]) by_chr)"

definition intervals_by_chr ::
  "(string \<times> int \<times> int) list \<Rightarrow> (string \<times> (int \<times> int) list) list" where
  "intervals_by_chr bed = fold add_bed bed []"

text \<open>
  Modelled from the spec: \<open>tree.find\<close> of the interval library, which is not part of
  the repository.  Section 4.1: every indexed range R with
  \<open>qstart < R.end AND R.start < qend\<close>.
\<close>

definition tree_find :: "(int \<times> int) list \<Rightarrow> int \<Rightarrow> int \<Rightarrow> (int \<times> int) list" where
  "tree_find tree qstart qend = filter (\<lambda>(s, e). qstart < e \<and> s < qend) tree"

text \<open>
  The body of \<open>for m in reader\<close>.  The script decides which blocks go to the writer;
  reading a block from the file's text and writing one back are the alignment
  library's and are not modelled.  A block is the list of the rows the scripts read,
  and \<open>out\<close> is the list of the blocks passed to \<open>writer.write\<close> so far, in order: it
  says which blocks are written, not which bytes.  \<open>m.components[0]\<close> raises
  IndexError on a block with no rows.
\<close>

definition write_step ::
  "(int \<times> int) list \<Rightarrow> alignment \<Rightarrow> alignment list \<Rightarrow> error + alignment list" where
  "write_step tree m out =
     (case m of
        [] \<Rightarrow> Inl IndexError
      | component # _ \<Rightarrow>
          let block_start = rstart component;
              block_end = rstart component + rsize component
          in if tree_find tree block_start block_end \<noteq> [] then Inr (out @ [m]) else Inr out)"

text \<open>
  \<open>process_chr\<close>: \<open>in_maf\<close> is the block stream of the chromosome's file, \<open>None\<close> when
  the file does not exist.  The result is \<open>None\<close> when the function returns before
  opening any file, and the blocks passed to the writer otherwise.
\<close>

definition process_chr ::
  "(string \<times> (int \<times> int) list) list \<Rightarrow> string \<Rightarrow> alignment list option
     \<Rightarrow> error + alignment list option" where
  "process_chr by_chr chrom in_maf =
     (case map_of by_chr (replace_chr chrom) of
        None \<Rightarrow> Inr None
      | Some tree \<Rightarrow>
          (case in_maf of
             None \<Rightarrow> Inl FileNotFoundError
           | Some blocks \<Rightarrow>
               (case fold_err (write_step tree) blocks [] of
                  Inl e \<Rightarrow> Inl e
                | Inr out \<Rightarrow> Inr (Some out))))"

section \<open>Notions used by the properties\<close>

text \<open>The span of the block's first row overlaps some range of the index.\<close>

definition first_row_overlaps :: "(int \<times> int) list \<Rightarrow> alignment \<Rightarrow> bool" where
  "first_row_overlaps tree m \<longleftrightarrow>
     (case m of
        [] \<Rightarrow> False
      | r # _ \<Rightarrow> \<exists>(s, e)\<in>set tree. rstart r < e \<and> s < rstart r + rsize r)"

text \<open>The anchor row's span overlaps some range of the index.\<close>

definition anchor_overlaps :: "(int \<times> int) list \<Rightarrow> alignment \<Rightarrow> bool" where
  "anchor_overlaps tree m \<longleftrightarrow>
     (case human_seq m of
        None \<Rightarrow> False
      | Some hs \<Rightarrow> \<exists>(s, e)\<in>set tree. rstart hs < e \<and> s < rstart hs + rsize hs)"

text \<open>The ranges the filter's index holds for a chromosome: its regions, widened.\<close>

definition margin_expanded :: "(string \<times> int \<times> int) list \<Rightarrow> string \<Rightarrow> (int \<times> int) list" where
  "margin_expanded bed chrom =
     map (\<lambda>(n, s, e). (s - MARGINS, e + MARGINS))
         (filter (\<lambda>(n, s, e). replace_chr n = replace_chr chrom) bed)"

text \<open>
  A well-formed block: exactly one anchor row, one row per species, and every row's
  number of non-gap characters equal to its declared size.
\<close>

definition wf_block :: "alignment \<Rightarrow> bool" where
  "wf_block a \<longleftrightarrow>
     length (filter (\<lambda>r. prefix ''hg38.'' (rid r)) a) = 1 \<and>
     distinct (map (\<lambda>r. species_of (rid r)) a) \<and>
     (\<forall>r\<in>set a. nongap_count (rseq r) = rsize r)"

text \<open>
  Every row of the block is at least as long as the anchor row, as in any alignment
  block read from a file: then no selected column lies beyond the end of a row.
\<close>

definition rows_cover_anchor :: "alignment \<Rightarrow> bool" where
  "rows_cover_anchor a \<longleftrightarrow>
     (case human_seq a of
        None \<Rightarrow> True
      | Some hs \<Rightarrow> \<forall>r\<in>set a. length (rseq hs) \<le> length (rseq r))"

text \<open>The anchor's reference span of a block, and blocks that do not overlap on it.\<close>

definition anchor_span :: "alignment \<Rightarrow> int set" where
  "anchor_span a =
     (case human_seq a of None \<Rightarrow> {} | Some hs \<Rightarrow> {rstart hs ..< rstart hs + rsize hs})"

fun nonoverlapping :: "alignment list \<Rightarrow> bool" where
  "nonoverlapping [] \<longleftrightarrow> True"
| "nonoverlapping (a # as) \<longleftrightarrow>
     (\<forall>a'\<in>set as. anchor_span a \<inter> anchor_span a' = {}) \<and> nonoverlapping as"

text \<open>
  A block touches (region, species) when the scan reaches the accumulation
  \<open>agg_results[key] += aligned_bases\<close> for it: the block has an anchor row, the region
  is returned by the overlap query, some column maps into the region, and the block has
  a row of that species other than the anchor's.
\<close>

definition touches :: "interval list \<Rightarrow> alignment \<Rightarrow> interval \<Rightarrow> string \<Rightarrow> bool" where
  "touches tree a R S \<longleftrightarrow>
     (case human_seq a of
        None \<Rightarrow> False
      | Some hs \<Rightarrow>
          R \<in> set (overlap tree (rstart hs) (rstart hs + rsize hs)) \<and>
          ltr_indices (aln_to_genome (rseq hs) (rstart hs)) R \<noteq> [] \<and>
          S \<noteq> ''hg38'' \<and> (\<exists>r\<in>set a. species_of (rid r) = S))"

definition touched ::
  "(string \<times> interval list) list \<Rightarrow> (string \<Rightarrow> alignment list option) \<Rightarrow> agg_key \<Rightarrow> bool" where
  "touched regions mafs = (\<lambda>(chrom, b, e, name, S).
     \<exists>tree blocks. (chrom, tree) \<in> set regions \<and> mafs chrom = Some blocks \<and>
       (\<exists>a\<in>set blocks. touches tree a \<lparr>iv_begin = b, iv_end = e, iv_data = name\<rparr> S))"

text \<open>Every row of species S in the block has only gaps at the columns selected for R.\<close>

definition gap_only :: "alignment \<Rightarrow> interval \<Rightarrow> string \<Rightarrow> bool" where
  "gap_only a R S \<longleftrightarrow>
     (case human_seq a of
        None \<Rightarrow> True
      | Some hs \<Rightarrow>
          \<forall>r\<in>set a. species_of (rid r) = S \<longrightarrow>
            (\<forall>i\<in>set (ltr_indices (aln_to_genome (rseq hs) (rstart hs)) R).
               rseq r ! i = CHR ''-''))"

section \<open>The scan as a stream of dictionary writes\<close>

text \<open>
  The scan writes to its dictionaries in two ways only: it sets a region's length and
  it adds a count to an accumulator key.  The writes of a successful scan, in order:
\<close>

datatype event = SetLen ltr_key | AddAgg agg_key int

fun apply_event :: "event \<Rightarrow> scan_state \<Rightarrow> scan_state" where
  "apply_event (SetLen (chrom, b, e, name)) st =
     st\<lparr>ltr_lengths := AList.update (chrom, b, e, name) (e - b) (ltr_lengths st)\<rparr>"
| "apply_event (AddAgg k n) st =
     st\<lparr>agg_results := AList.update k (get0 (agg_results st) k + n) (agg_results st)\<rparr>"

definition row_events :: "string \<Rightarrow> interval \<Rightarrow> nat list \<Rightarrow> alignment \<Rightarrow> event list" where
  "row_events chrom ov idx a =
     map (\<lambda>r. AddAgg (chrom, iv_begin ov, iv_end ov, iv_data ov, species_of (rid r))
                     (nongap_count (map (\<lambda>i. rseq r ! i) idx)))
         (filter (\<lambda>r. species_of (rid r) \<noteq> ''hg38'') a)"

definition region_events :: "string \<Rightarrow> alignment \<Rightarrow> seqrec \<Rightarrow> interval \<Rightarrow> event list" where
  "region_events chrom a hs ov =
     SetLen (chrom, iv_begin ov, iv_end ov, iv_data ov) #
     (let idx = ltr_indices (aln_to_genome (rseq hs) (rstart hs)) ov
      in if idx = [] then [] else row_events chrom ov idx a)"

definition block_events :: "string \<Rightarrow> interval list \<Rightarrow> alignment \<Rightarrow> event list" where
  "block_events chrom tree a =
     (case human_seq a of
        None \<Rightarrow> []
      | Some hs \<Rightarrow>
          concat (map (region_events chrom a hs)
                      (overlap tree (rstart hs) (rstart hs + rsize hs))))"

definition chrom_events ::
  "(string \<Rightarrow> alignment list option) \<Rightarrow> string \<times> interval list \<Rightarrow> event list" where
  "chrom_events mafs = (\<lambda>(chrom, tree).
     case mafs chrom of
       None \<Rightarrow> []
     | Some blocks \<Rightarrow> concat (map (block_events chrom tree) blocks))"

definition scan_events ::
  "(string \<times> interval list) list \<Rightarrow> (string \<Rightarrow> alignment list option) \<Rightarrow> event list" where
  "scan_events regions mafs = concat (map (chrom_events mafs) regions)"

text \<open>The sum of the counts added to one key.\<close>

fun added :: "agg_key \<Rightarrow> event list \<Rightarrow> int" where
  "added k [] = 0"
| "added k (SetLen _ # evs) = added k evs"
| "added k (AddAgg k' n # evs) = (if k' = k then n + added k evs else added k evs)"

section \<open>The coordinate map\<close>

lemma walk_snoc: "aln_walk (s @ [b]) rs = aln_step b (aln_walk s rs)"
  by (simp add: aln_walk_def)

lemma walk_fst_snoc:
  "fst (aln_walk (s @ [b]) rs) =
     fst (aln_walk s rs) @ [if b \<noteq> CHR ''-'' then Some (snd (aln_walk s rs)) else None]"
  by (simp add: walk_snoc aln_step_def split_beta)

lemma walk_snd_snoc:
  "snd (aln_walk (s @ [b]) rs) =
     (if b \<noteq> CHR ''-'' then snd (aln_walk s rs) + 1 else snd (aln_walk s rs))"
  by (simp add: walk_snoc aln_step_def split_beta)

lemma walk_snd: "snd (aln_walk s rs) = rs + nongap_count s"
proof (induction s rule: rev_induct)
  case Nil
  show ?case by (simp add: aln_walk_def nongap_count_def)
next
  case (snoc b s)
  then show ?case by (simp add: walk_snd_snoc nongap_count_def)
qed

lemma walk_length: "length (fst (aln_walk s rs)) = length s"
  by (induction s rule: rev_induct) (simp_all add: walk_fst_snoc, simp add: aln_walk_def)

lemma walk_nth:
  "i < length s \<Longrightarrow>
     fst (aln_walk s rs) ! i =
       (if s ! i \<noteq> CHR ''-'' then Some (snd (aln_walk (take i s) rs)) else None)"
proof (induction s rule: rev_induct)
  case Nil
  then show ?case by simp
next
  case (snoc b s)
  show ?case
  proof (cases "i < length s")
    case True
    with snoc.IH show ?thesis
      by (simp add: walk_fst_snoc nth_append walk_length)
  next
    case False
    with snoc.prems have "i = length s" by simp
    then show ?thesis
      by (simp add: walk_fst_snoc nth_append walk_length)
  qed
qed

lemma walk_positions:
  "map the (filter (\<lambda>g. g \<noteq> None) (fst (aln_walk s rs))) =
     map (\<lambda>k. rs + int k) [0..<length (filter (\<lambda>b. b \<noteq> CHR ''-'') s)]"
proof (induction s rule: rev_induct)
  case Nil
  then show ?case by (simp add: aln_walk_def)
next
  case (snoc b s)
  then show ?case
    by (simp add: walk_fst_snoc walk_snd nongap_count_def)
qed

lemma sorted_offsets: "sorted_wrt (<) (map (\<lambda>k. rs + int k) [0..<n])"
  by (simp add: sorted_wrt_map sorted_wrt_iff_nth_less)

text \<open>
  C2.  For every anchor alignment string \<open>s\<close> and reference start \<open>rs\<close>, the
  coordinate map has one entry per column.  At column \<open>i\<close> the counter is the one the
  walk has after the first \<open>i\<close> columns: a gap column maps to no position and leaves
  the counter as it is, any other column maps to the counter, which then grows by one.
  So the entries that are positions are exactly the non-gap columns; read in order they
  are \<open>rs, rs + 1, ...\<close>, hence strictly increasing and starting at \<open>rs\<close>; and the
  final counter is \<open>rs\<close> plus the number of non-gap characters.
\<close>

theorem aln_to_genome_columns:
  "length (aln_to_genome s rs) = length s \<and>
   (\<forall>i<length s.
      (s ! i = CHR ''-'' \<longrightarrow>
         aln_to_genome s rs ! i = None \<and>
         snd (aln_walk (take (Suc i) s) rs) = snd (aln_walk (take i s) rs)) \<and>
      (s ! i \<noteq> CHR ''-'' \<longrightarrow>
         aln_to_genome s rs ! i = Some (snd (aln_walk (take i s) rs)) \<and>
         snd (aln_walk (take (Suc i) s) rs) = snd (aln_walk (take i s) rs) + 1)) \<and>
   (\<forall>i<length s. aln_to_genome s rs ! i \<noteq> None \<longleftrightarrow> s ! i \<noteq> CHR ''-'') \<and>
   map the (filter (\<lambda>g. g \<noteq> None) (aln_to_genome s rs)) =
     map (\<lambda>k. rs + int k) [0..<length (filter (\<lambda>b. b \<noteq> CHR ''-'') s)] \<and>
   sorted_wrt (<) (map the (filter (\<lambda>g. g \<noteq> None) (aln_to_genome s rs))) \<and>
   (filter (\<lambda>b. b \<noteq> CHR ''-'') s \<noteq> [] \<longrightarrow>
      hd (map the (filter (\<lambda>g. g \<noteq> None) (aln_to_genome s rs))) = rs) \<and>
   snd (aln_walk s rs) = rs + nongap_count s"
proof -
  have len: "length (aln_to_genome s rs) = length s"
    by (simp add: aln_to_genome_def walk_length)
  have col: "snd (aln_walk (take (Suc i) s) rs) =
      (if s ! i \<noteq> CHR ''-'' then snd (aln_walk (take i s) rs) + 1
       else snd (aln_walk (take i s) rs))" if "i < length s" for i
    using that by (simp add: take_Suc_conv_app_nth walk_snd_snoc)
  have nth: "aln_to_genome s rs ! i =
      (if s ! i \<noteq> CHR ''-'' then Some (snd (aln_walk (take i s) rs)) else None)"
    if "i < length s" for i
    using that by (simp add: aln_to_genome_def walk_nth)
  have pos: "map the (filter (\<lambda>g. g \<noteq> None) (aln_to_genome s rs)) =
     map (\<lambda>k. rs + int k) [0..<length (filter (\<lambda>b. b \<noteq> CHR ''-'') s)]"
    by (simp only: aln_to_genome_def walk_positions)
  have srt: "sorted_wrt (<) (map the (filter (\<lambda>g. g \<noteq> None) (aln_to_genome s rs)))"
    by (simp only: pos sorted_offsets)
  have first: "hd (map the (filter (\<lambda>g. g \<noteq> None) (aln_to_genome s rs))) = rs"
    if "filter (\<lambda>b. b \<noteq> CHR ''-'') s \<noteq> []"
  proof -
    from that have "0 < length (filter (\<lambda>b. b \<noteq> CHR ''-'') s)" by simp
    then show ?thesis
      by (simp only: pos) (simp add: hd_map upt_conv_Cons del: upt_Suc)
  qed
  from len col nth pos srt first walk_snd show ?thesis
    by simp
qed

text \<open>The same at the string \<open>A-C\<close> walked from position 5.\<close>

theorem aln_to_genome_columns_witness:
  "(1::nat) < length ''A-C'' \<and> ''A-C'' ! 1 = CHR ''-'' \<and> ''A-C'' ! 2 \<noteq> CHR ''-'' \<and>
   aln_to_genome ''A-C'' 5 = [Some 5, None, Some 6] \<and>
   snd (aln_walk (take 1 ''A-C'') 5) = 6 \<and>
   snd (aln_walk (take 2 ''A-C'') 5) = 6 \<and>
   snd (aln_walk (take 3 ''A-C'') 5) = 7 \<and>
   snd (aln_walk ''A-C'' 5) = 5 + nongap_count ''A-C''"
  using aln_to_genome_columns [of "''A-C''" 5]
  by (simp add: aln_to_genome_def aln_walk_def aln_step_def nongap_count_def)

section \<open>The two roundings of the summary\<close>

lemma true_div_zero: "true_div 0 b = 0"
  by (simp add: true_div_def)

lemma round3_zero: "round3 0 = 0"
  by (simp add: round3_def round_half_even_def)

text \<open>
  \<open>3 / 10\<close> is the double just below three tenths and rounds to 0.3.  The quotients
  \<open>3 / 80\<close> and \<open>1 / 80\<close> lie halfway between two decimals; the doubles do not, one
  falls below and one above, as \<open>round(3/80, 3) = 0.037\<close> and \<open>round(1/80, 3) = 0.013\<close>.
\<close>

lemma true_div_3_10: "true_div 3 10 = 5404319552844595 / 18014398509481984"
  by code_simp

lemma round3_3_10: "round3 (true_div 3 10) = 3 / 10"
  by code_simp

lemma round3_2_10: "round3 (true_div 2 10) = 1 / 5"
  by code_simp

lemma round3_3_80: "round3 (true_div 3 80) = 37 / 1000"
  by code_simp

lemma round3_1_80: "round3 (true_div 1 80) = 13 / 1000"
  by code_simp

section \<open>The coverage scenario\<close>

text \<open>
  C1.  Region \<open>chr1:100-110\<close>, one block whose anchor row is \<open>ACGT--ACGT\<close> starting
  at 95, and a second row \<open>ACGTAAACGT\<close> of another species.  The coordinate map is
  95, 96, 97, 98, none, none, 99, 100, 101, 102; the columns mapped into [100, 110) are
  7, 8, 9; the second species accumulates 3 aligned bases for the region; the emitted
  row has region length 10 and coverage \<open>round(3/10, 3) = 0.3\<close>.
\<close>

theorem coverage_scenario:
  "aln_to_genome ''ACGT--ACGT'' 95 =
     [Some 95, Some 96, Some 97, Some 98, None, None, Some 99, Some 100, Some 101, Some 102] \<and>
   ltr_indices (aln_to_genome ''ACGT--ACGT'' 95)
     \<lparr>iv_begin = 100, iv_end = 110, iv_data = ''chr1:100-110''\<rparr> = [7, 8, 9] \<and>
   scan (ltr_regions [(''chr1'', 100, 110, ''chr1:100-110'')])
     (\<lambda>c. if c = ''1'' then
        Some [[\<lparr>rid = ''hg38.chr1'', rseq = ''ACGT--ACGT'', rstart = 95, rsize = 8\<rparr>,
               \<lparr>rid = ''panTro4.chr1'', rseq = ''ACGTAAACGT'', rstart = 0, rsize = 10\<rparr>]]
      else None) =
     Inr \<lparr>agg_results = [((''1'', 100, 110, ''chr1:100-110'', ''panTro4''), 3)],
          ltr_lengths = [((''1'', 100, 110, ''chr1:100-110''), 10)]\<rparr> \<and>
   check_erv_presence [(''chr1'', 100, 110, ''chr1:100-110'')]
     (\<lambda>c. if c = ''1'' then
        Some [[\<lparr>rid = ''hg38.chr1'', rseq = ''ACGT--ACGT'', rstart = 95, rsize = 8\<rparr>,
               \<lparr>rid = ''panTro4.chr1'', rseq = ''ACGTAAACGT'', rstart = 0, rsize = 10\<rparr>]]
      else None) =
     Inr [\<lparr>row_chrom = ''1'', row_start = 100, row_end = 110, row_ltr = ''chr1:100-110'',
           row_species = ''panTro4'', row_aligned_bases = 3, row_ltr_len = 10,
           row_coverage = 3 / 10\<rparr>] \<and>
   round3 (true_div 3 10) = 3 / 10"
  by (simp add: aln_to_genome_def aln_walk_def aln_step_def ltr_indices_def enumerate_eq_zip
      upt_conv_Cons
      scan_def ltr_regions_def load_loc_def addi_def chrom_step_def block_step_def human_seq_def
      overlap_def overlaps_def region_step_def rec_step_def species_of_def nongap_count_def
      get0_def init_state_def check_erv_presence_def records_def summary_row_def round3_3_10)

section \<open>Blocks without an anchor row\<close>

text \<open>
  C7.  A block none of whose rows has an identifier starting with \<open>hg38.\<close> is skipped
  without an error: the accumulator and the length cache are as before, and the scan
  goes on with the next block.
\<close>

theorem block_without_anchor_skipped:
  assumes "\<forall>r\<in>set alignment. \<not> prefix ''hg38.'' (rid r)"
  shows "block_step chrom tree alignment st = Inr st \<and>
         fold_err (block_step chrom tree) (alignment # rest) st =
           fold_err (block_step chrom tree) rest st"
proof -
  from assms have "human_seq alignment = None"
    by (simp add: human_seq_def find_None_iff)
  then have "block_step chrom tree alignment st = Inr st"
    by (simp add: block_step_def)
  then show ?thesis by simp
qed


text \<open>A block with a single chimpanzee row, before an empty rest of the file.\<close>

theorem block_without_anchor_skipped_witness:
  "block_step ''1'' [] [\<lparr>rid = ''panTro4.chr1'', rseq = ''AC'', rstart = 0, rsize = 2\<rparr>] init_state
     = Inr init_state \<and>
   fold_err (block_step ''1'' [])
     [[\<lparr>rid = ''panTro4.chr1'', rseq = ''AC'', rstart = 0, rsize = 2\<rparr>]] init_state =
     fold_err (block_step ''1'' []) [] init_state"
  using block_without_anchor_skipped
    [of "[\<lparr>rid = ''panTro4.chr1'', rseq = ''AC'', rstart = 0, rsize = 2\<rparr>]"
        "''1''" "[]" init_state "[]"]
  by simp

section \<open>The block filter\<close>

lemma replace_chr_every_occurrence: "replace_chr ''chrUn_chr5'' = ''Un_5''"
  by simp

lemma intervals_by_chr_snoc:
  "intervals_by_chr (bed @ [x]) = add_bed x (intervals_by_chr bed)"
  by (simp add: intervals_by_chr_def)

lemma intervals_by_chr_lookup:
  "map_of (intervals_by_chr bed) c =
     (let rs = map (\<lambda>(n, s, e). (s - MARGINS, e + MARGINS))
                   (filter (\<lambda>(n, s, e). replace_chr n = c) bed)
      in if rs = [] then None else Some rs)"
proof (induction bed rule: rev_induct)
  case Nil
  show ?case by (simp add: intervals_by_chr_def)
next
  case (snoc x bed)
  obtain n s e where x: "x = (n, s, e)" by (cases x)
  show ?case
  proof (cases "replace_chr n = c")
    case True
    with snoc show ?thesis
      by (simp add: intervals_by_chr_snoc x add_bed_def update_conv' Let_def
          split: option.splits if_splits)
  next
    case False
    with snoc show ?thesis
      by (simp add: intervals_by_chr_snoc x add_bed_def update_conv' Let_def)
  qed
qed

lemma write_loop:
  "fold_err (write_step tree) blocks out =
     (if [] \<in> set blocks then Inl IndexError
      else Inr (out @ filter (\<lambda>m. tree_find tree (rstart (hd m)) (rstart (hd m) + rsize (hd m)) \<noteq> [])
                        blocks))"
proof (induction blocks arbitrary: out)
  case Nil
  show ?case by simp
next
  case (Cons m blocks)
  show ?case
  proof (cases m)
    case Nil
    then show ?thesis by (simp add: write_step_def)
  next
    case (Cons c rest)
    with Cons.IH show ?thesis by (simp add: write_step_def Let_def)
  qed
qed

lemma tree_find_nonempty:
  "tree_find tree qs qe \<noteq> [] \<longleftrightarrow> (\<exists>(s, e)\<in>set tree. qs < e \<and> s < qe)"
  by (auto simp add: tree_find_def filter_empty_conv)

lemma first_row_anchor:
  "m = hs # rest \<Longrightarrow> prefix ''hg38.'' (rid hs) \<Longrightarrow> human_seq m = Some hs"
  by (simp add: human_seq_def)

text \<open>
  C3, as amended.  The filter tests the span \<open>[start, start + size)\<close> of each block's
  first row: on every stream it passes to the writer, in file order, exactly the blocks
  whose first row's span overlaps, half-open, at least one margin-expanded range of
  the chromosome, and drops the others; a block with no rows raises IndexError, and
  when the chromosome has no range at all nothing is written.  For a block whose first
  row is the anchor species row, the span tested is the anchor row's.
\<close>

theorem process_chr_tests_first_row:
  "process_chr (intervals_by_chr bed) chrom (Some blocks) =
     (if margin_expanded bed chrom = [] then Inr None
      else if [] \<in> set blocks then Inl IndexError
      else Inr (Some (filter (first_row_overlaps (margin_expanded bed chrom)) blocks))) \<and>
   (\<forall>hs rest. prefix ''hg38.'' (rid hs) \<longrightarrow>
      first_row_overlaps tree (hs # rest) = anchor_overlaps tree (hs # rest))"
proof -
  have look: "map_of (intervals_by_chr bed) (replace_chr chrom) =
      (if margin_expanded bed chrom = [] then None else Some (margin_expanded bed chrom))"
    by (simp add: intervals_by_chr_lookup margin_expanded_def Let_def)
  have same: "filter (\<lambda>m. tree_find t (rstart (hd m)) (rstart (hd m) + rsize (hd m)) \<noteq> []) blocks
      = filter (first_row_overlaps t) blocks" if "[] \<notin> set blocks" for t
  proof (rule filter_cong [OF refl])
    fix m assume "m \<in> set blocks"
    with that obtain r rest where "m = r # rest" by (cases m) auto
    then show "(tree_find t (rstart (hd m)) (rstart (hd m) + rsize (hd m)) \<noteq> []) =
        first_row_overlaps t m"
      by (simp add: first_row_overlaps_def tree_find_nonempty)
  qed
  have filter: "process_chr (intervals_by_chr bed) chrom (Some blocks) =
     (if margin_expanded bed chrom = [] then Inr None
      else if [] \<in> set blocks then Inl IndexError
      else Inr (Some (filter (first_row_overlaps (margin_expanded bed chrom)) blocks)))"
    by (simp add: process_chr_def look write_loop same)
  have "first_row_overlaps tree (hs # rest) = anchor_overlaps tree (hs # rest)"
    if "prefix ''hg38.'' (rid hs)" for hs rest
    using first_row_anchor [OF refl that, of rest]
    by (simp add: first_row_overlaps_def anchor_overlaps_def)
  with filter show ?thesis by blast
qed

text \<open>
  A stream of three blocks against the region [0, 400): one led by its anchor row
  inside the widened region, one led by a chimpanzee row inside it while its anchor row
  is far away, one led by its anchor row just after it.  The first two are written.
\<close>

theorem process_chr_tests_first_row_witness:
  "process_chr (intervals_by_chr [(''chr1'', 0, 400)]) ''chr1''
     (Some [[\<lparr>rid = ''hg38.chr1'', rseq = ''AC'', rstart = 500, rsize = 2\<rparr>],
            [\<lparr>rid = ''panTro4.chr1'', rseq = ''AC'', rstart = 0, rsize = 2\<rparr>,
             \<lparr>rid = ''hg38.chr1'', rseq = ''AC'', rstart = 5000, rsize = 2\<rparr>],
            [\<lparr>rid = ''hg38.chr1'', rseq = ''AC'', rstart = 2400, rsize = 2\<rparr>]]) =
     Inr (Some [[\<lparr>rid = ''hg38.chr1'', rseq = ''AC'', rstart = 500, rsize = 2\<rparr>],
                [\<lparr>rid = ''panTro4.chr1'', rseq = ''AC'', rstart = 0, rsize = 2\<rparr>,
                 \<lparr>rid = ''hg38.chr1'', rseq = ''AC'', rstart = 5000, rsize = 2\<rparr>]]) \<and>
   prefix ''hg38.'' (rid \<lparr>rid = ''hg38.chr1'', rseq = ''AC'', rstart = 500, rsize = 2\<rparr>) \<and>
   anchor_overlaps [(- 2000, 2400)]
     [\<lparr>rid = ''hg38.chr1'', rseq = ''AC'', rstart = 500, rsize = 2\<rparr>]"
  using process_chr_tests_first_row
    [of "[(''chr1'', 0, 400)]" "''chr1''"
        "[[\<lparr>rid = ''hg38.chr1'', rseq = ''AC'', rstart = 500, rsize = 2\<rparr>],
          [\<lparr>rid = ''panTro4.chr1'', rseq = ''AC'', rstart = 0, rsize = 2\<rparr>,
           \<lparr>rid = ''hg38.chr1'', rseq = ''AC'', rstart = 5000, rsize = 2\<rparr>],
          [\<lparr>rid = ''hg38.chr1'', rseq = ''AC'', rstart = 2400, rsize = 2\<rparr>]]"
        "[(- 2000, 2400)]"]
  by (simp add: margin_expanded_def MARGINS_def first_row_overlaps_def)

text \<open>
  C3, as stated, fails on a block whose anchor row is not the first one: the block is
  kept on the strength of its first row although the anchor row's span [5000, 5002)
  overlaps no range of the index.
\<close>

theorem anchor_not_first_counterexample:
  "process_chr (intervals_by_chr [(''chr1'', 0, 400)]) ''chr1''
     (Some [[\<lparr>rid = ''panTro4.chr1'', rseq = ''AC'', rstart = 0, rsize = 2\<rparr>,
             \<lparr>rid = ''hg38.chr1'', rseq = ''AC'', rstart = 5000, rsize = 2\<rparr>]]) =
     Inr (Some [[\<lparr>rid = ''panTro4.chr1'', rseq = ''AC'', rstart = 0, rsize = 2\<rparr>,
                 \<lparr>rid = ''hg38.chr1'', rseq = ''AC'', rstart = 5000, rsize = 2\<rparr>]]) \<and>
   margin_expanded [(''chr1'', 0, 400)] ''chr1'' = [(- 2000, 2400)] \<and>
   human_seq [\<lparr>rid = ''panTro4.chr1'', rseq = ''AC'', rstart = 0, rsize = 2\<rparr>,
              \<lparr>rid = ''hg38.chr1'', rseq = ''AC'', rstart = 5000, rsize = 2\<rparr>] =
     Some \<lparr>rid = ''hg38.chr1'', rseq = ''AC'', rstart = 5000, rsize = 2\<rparr> \<and>
   \<not> anchor_overlaps (margin_expanded [(''chr1'', 0, 400)] ''chr1'')
       [\<lparr>rid = ''panTro4.chr1'', rseq = ''AC'', rstart = 0, rsize = 2\<rparr>,
        \<lparr>rid = ''hg38.chr1'', rseq = ''AC'', rstart = 5000, rsize = 2\<rparr>]"
  by (simp add: process_chr_def intervals_by_chr_def add_bed_def MARGINS_def write_step_def
      tree_find_def margin_expanded_def anchor_overlaps_def human_seq_def)

text \<open>
  C4.  The index holds, for each chromosome, every one of its regions widened to
  \<open>[start - 2000, end + 2000)\<close>.  The region [0, 400) becomes [-2000, 2400), and a block
  whose anchor span is [500, 600) is written although that span does not overlap the
  region [0, 400) itself.
\<close>

theorem margin_retention:
  "(\<forall>bed c. map_of (intervals_by_chr bed) c =
      (let rs = map (\<lambda>(n, s, e). (s - 2000, e + 2000))
                    (filter (\<lambda>(n, s, e). replace_chr n = c) bed)
       in if rs = [] then None else Some rs)) \<and>
   intervals_by_chr [(''chr1'', 0, 400)] = [(''1'', [(- 2000, 2400)])] \<and>
   process_chr (intervals_by_chr [(''chr1'', 0, 400)]) ''chr1''
     (Some [[\<lparr>rid = ''hg38.chr1'', rseq = s, rstart = 500, rsize = 100\<rparr>]]) =
     Inr (Some [[\<lparr>rid = ''hg38.chr1'', rseq = s, rstart = 500, rsize = 100\<rparr>]]) \<and>
   tree_find [(0, 400)] 500 (500 + 100) = []"
proof -
  have "\<forall>bed c. map_of (intervals_by_chr bed) c =
      (let rs = map (\<lambda>(n, s, e). (s - 2000, e + 2000))
                    (filter (\<lambda>(n, s, e). replace_chr n = c) bed)
       in if rs = [] then None else Some rs)"
    using intervals_by_chr_lookup by (simp add: MARGINS_def)
  moreover have "intervals_by_chr [(''chr1'', 0, 400)] = [(''1'', [(- 2000, 2400)])]"
    by (simp add: intervals_by_chr_def add_bed_def MARGINS_def)
  moreover have "process_chr [(''1'', [(- 2000, 2400)])] ''chr1''
     (Some [[\<lparr>rid = ''hg38.chr1'', rseq = s, rstart = 500, rsize = 100\<rparr>]]) =
     Inr (Some [[\<lparr>rid = ''hg38.chr1'', rseq = s, rstart = 500, rsize = 100\<rparr>]])"
    by (simp add: process_chr_def write_step_def tree_find_def)
  moreover have "tree_find [(0, 400)] 500 (500 + 100) = []"
    by (simp add: tree_find_def)
  ultimately show ?thesis by simp
qed

section \<open>A successful scan performs its stream of writes\<close>

lemma fold_err_events:
  assumes "\<And>x s s'. x \<in> set xs \<Longrightarrow> f x s = Inr s' \<Longrightarrow> s' = fold g (ev x) s"
    and "fold_err f xs s = Inr s'"
  shows "s' = fold g (concat (map ev xs)) s"
  using assms
proof (induction xs arbitrary: s)
  case Nil
  then show ?case by simp
next
  case (Cons x xs)
  from Cons.prems(2) obtain s1 where s1: "f x s = Inr s1" and rest: "fold_err f xs s1 = Inr s'"
    by (auto split: sum.splits)
  from Cons.prems(1) [OF _ s1] have "s1 = fold g (ev x) s" by simp
  moreover from Cons.IH [OF _ rest] Cons.prems(1) have "s' = fold g (concat (map ev xs)) s1"
    by simp
  ultimately show ?case by simp
qed

lemma rows_events:
  "fold_err (rec_step chrom ov idx) a (agg_results st) = Inr agg \<Longrightarrow>
     st\<lparr>agg_results := agg\<rparr> = fold apply_event (row_events chrom ov idx a) st"
proof (induction a arbitrary: st)
  case Nil
  then show ?case by (simp add: row_events_def)
next
  case (Cons r a)
  from Cons.prems obtain agg1 where
    r: "rec_step chrom ov idx r (agg_results st) = Inr agg1" and
    rest: "fold_err (rec_step chrom ov idx) a agg1 = Inr agg"
    by (auto split: sum.splits)
  from rest have "fold_err (rec_step chrom ov idx) a (agg_results (st\<lparr>agg_results := agg1\<rparr>)) = Inr agg"
    by simp
  from Cons.IH [OF this]
  have step: "st\<lparr>agg_results := agg\<rparr> =
      fold apply_event (row_events chrom ov idx a) (st\<lparr>agg_results := agg1\<rparr>)"
    by simp
  show ?case
  proof (cases "species_of (rid r) = ''hg38''")
    case True
    with r have "agg1 = agg_results st" by (simp add: rec_step_def)
    with step True show ?thesis by (simp add: row_events_def)
  next
    case False
    with r have "agg1 = AList.update (chrom, iv_begin ov, iv_end ov, iv_data ov, species_of (rid r))
         (get0 (agg_results st) (chrom, iv_begin ov, iv_end ov, iv_data ov, species_of (rid r))
            + nongap_count (map (\<lambda>i. rseq r ! i) idx)) (agg_results st)"
      by (simp add: rec_step_def Let_def split: if_splits)
    with step False show ?thesis by (simp add: row_events_def)
  qed
qed

lemma region_events_ok:
  assumes "region_step chrom a hs ov st = Inr st'"
  shows "st' = fold apply_event (region_events chrom a hs ov) st"
proof -
  let ?st1 = "apply_event (SetLen (chrom, iv_begin ov, iv_end ov, iv_data ov)) st"
  let ?idx = "ltr_indices (aln_to_genome (rseq hs) (rstart hs)) ov"
  show ?thesis
  proof (cases "?idx = []")
    case True
    with assms show ?thesis by (simp add: region_step_def region_events_def Let_def)
  next
    case False
    with assms obtain agg where
      agg: "fold_err (rec_step chrom ov ?idx) a (agg_results ?st1) = Inr agg" and
      st': "st' = ?st1\<lparr>agg_results := agg\<rparr>"
      by (auto simp add: region_step_def Let_def split: sum.splits)
    from rows_events [OF agg] st' False show ?thesis
      by (simp add: region_events_def Let_def)
  qed
qed

lemma block_events_ok:
  assumes "block_step chrom tree a st = Inr st'"
  shows "st' = fold apply_event (block_events chrom tree a) st"
proof (cases "human_seq a")
  case None
  with assms show ?thesis by (simp add: block_step_def block_events_def)
next
  case (Some hs)
  with assms have "fold_err (region_step chrom a hs)
      (overlap tree (rstart hs) (rstart hs + rsize hs)) st = Inr st'"
    by (simp add: block_step_def Let_def)
  from fold_err_events [where g = apply_event and ev = "region_events chrom a hs", OF _ this]
    region_events_ok Some
  show ?thesis by (simp add: block_events_def)
qed

lemma chrom_events_ok:
  assumes "chrom_step mafs ct st = Inr st'"
  shows "st' = fold apply_event (chrom_events mafs ct) st"
proof -
  obtain chrom tree where ct: "ct = (chrom, tree)" by (cases ct)
  show ?thesis
  proof (cases "mafs chrom")
    case None
    with assms ct show ?thesis by (simp add: chrom_step_def chrom_events_def)
  next
    case (Some blocks)
    with assms ct have "fold_err (block_step chrom tree) blocks st = Inr st'"
      by (simp add: chrom_step_def)
    from fold_err_events [where g = apply_event and ev = "block_events chrom tree", OF _ this]
      block_events_ok Some ct
    show ?thesis by (simp add: chrom_events_def)
  qed
qed

lemma scan_events_ok:
  assumes "scan regions mafs = Inr st"
  shows "st = fold apply_event (scan_events regions mafs) init_state"
proof -
  from assms have "fold_err (chrom_step mafs) regions init_state = Inr st"
    by (simp add: scan_def)
  from fold_err_events [where g = apply_event and ev = "chrom_events mafs", OF _ this]
    chrom_events_ok
  show ?thesis by (simp add: scan_events_def)
qed

lemma added_none: "\<forall>n. AddAgg k n \<notin> set evs \<Longrightarrow> added k evs = 0"
  by (induction k evs rule: added.induct) auto

text \<open>What the dictionaries hold after a stream of writes.\<close>

lemma agg_after_events:
  "map_of (agg_results (fold apply_event evs st)) k =
     (if \<exists>n. AddAgg k n \<in> set evs then Some (get0 (agg_results st) k + added k evs)
      else map_of (agg_results st) k)"
proof (induction evs arbitrary: st)
  case Nil
  show ?case by simp
next
  case (Cons ev evs)
  show ?case
  proof (cases ev)
    case (SetLen lk)
    obtain c b e n where "lk = (c, b, e, n)" by (cases lk)
    with SetLen Cons.IH [of "apply_event ev st"] show ?thesis by simp
  next
    case (AddAgg k' n)
    with Cons.IH [of "apply_event ev st"] show ?thesis
      by (auto simp add: update_conv' get0_def added_none)
  qed
qed

lemma len_after_events:
  "map_of (ltr_lengths (fold apply_event evs st)) (c, b, e, n) =
     (if SetLen (c, b, e, n) \<in> set evs then Some (e - b)
      else map_of (ltr_lengths st) (c, b, e, n))"
proof (induction evs arbitrary: st)
  case Nil
  show ?case by simp
next
  case (Cons ev evs)
  show ?case
  proof (cases ev)
    case (SetLen lk)
    obtain c' b' e' n' where "lk = (c', b', e', n')" by (cases lk)
    with SetLen Cons.IH [of "apply_event ev st"] show ?thesis
      by (auto simp add: update_conv')
  next
    case (AddAgg k' m)
    with Cons.IH [of "apply_event ev st"] show ?thesis by simp
  qed
qed

section \<open>Which writes a scan performs\<close>

lemma ltr_indices_nonempty:
  assumes "ltr_indices a2g ov \<noteq> []"
  shows "iv_begin ov < iv_end ov"
proof -
  from assms obtain i g where "(i, g) \<in> set (enumerate 0 a2g)"
    and "case g of None \<Rightarrow> False | Some p \<Rightarrow> iv_begin ov \<le> p \<and> p < iv_end ov"
    by (auto simp add: ltr_indices_def filter_empty_conv)
  then show ?thesis by (cases g) auto
qed

lemma nongap_count_nonneg: "0 \<le> nongap_count s"
  by (simp add: nongap_count_def)

lemma nongap_count_gaps: "\<forall>c\<in>set s. c = CHR ''-'' \<Longrightarrow> nongap_count s = 0"
  by (simp add: nongap_count_def filter_empty_conv)

lemma AddAgg_region_events:
  "AddAgg k v \<in> set (region_events chrom a hs ov) \<longleftrightarrow>
     ltr_indices (aln_to_genome (rseq hs) (rstart hs)) ov \<noteq> [] \<and>
     (\<exists>r\<in>set a. species_of (rid r) \<noteq> ''hg38'' \<and>
        k = (chrom, iv_begin ov, iv_end ov, iv_data ov, species_of (rid r)) \<and>
        v = nongap_count (map (\<lambda>i. rseq r ! i)
              (ltr_indices (aln_to_genome (rseq hs) (rstart hs)) ov)))"
  by (auto simp add: region_events_def row_events_def Let_def)

lemma SetLen_region_events:
  "SetLen (chrom, iv_begin ov, iv_end ov, iv_data ov) \<in> set (region_events chrom a hs ov)"
  by (simp add: region_events_def)

lemma AddAgg_block_events:
  "AddAgg k v \<in> set (block_events chrom tree a) \<longleftrightarrow>
     (\<exists>hs. human_seq a = Some hs \<and>
        (\<exists>ov\<in>set (overlap tree (rstart hs) (rstart hs + rsize hs)).
           AddAgg k v \<in> set (region_events chrom a hs ov)))"
  by (cases "human_seq a") (auto simp add: block_events_def)

lemma AddAgg_block_facts:
  assumes "AddAgg (c, b, e, n, S) v \<in> set (block_events chrom tree a)"
  shows "c = chrom" and "touches tree a \<lparr>iv_begin = b, iv_end = e, iv_data = n\<rparr> S"
    and "0 \<le> v" and "b < e" and "SetLen (c, b, e, n) \<in> set (block_events chrom tree a)"
    and "gap_only a \<lparr>iv_begin = b, iv_end = e, iv_data = n\<rparr> S \<Longrightarrow> v = 0"
proof -
  from assms obtain hs ov r where
    hs: "human_seq a = Some hs" and
    ov: "ov \<in> set (overlap tree (rstart hs) (rstart hs + rsize hs))" and
    idx: "ltr_indices (aln_to_genome (rseq hs) (rstart hs)) ov \<noteq> []" and
    r: "r \<in> set a" "species_of (rid r) \<noteq> ''hg38''" and
    k: "c = chrom" "b = iv_begin ov" "e = iv_end ov" "n = iv_data ov" "S = species_of (rid r)" and
    v: "v = nongap_count (map (\<lambda>i. rseq r ! i)
              (ltr_indices (aln_to_genome (rseq hs) (rstart hs)) ov))"
    unfolding AddAgg_block_events AddAgg_region_events by auto
  have R: "\<lparr>iv_begin = b, iv_end = e, iv_data = n\<rparr> = ov"
    using k by simp
  show "c = chrom" by fact
  show "touches tree a \<lparr>iv_begin = b, iv_end = e, iv_data = n\<rparr> S"
    unfolding R using hs ov idx r k by (auto simp add: touches_def)
  show "0 \<le> v" using v by (simp add: nongap_count_nonneg)
  show "b < e" using ltr_indices_nonempty [OF idx] k by simp
  show "SetLen (c, b, e, n) \<in> set (block_events chrom tree a)"
    using hs ov k SetLen_region_events [of chrom ov a hs]
    by (auto simp add: block_events_def)
  show "v = 0" if "gap_only a \<lparr>iv_begin = b, iv_end = e, iv_data = n\<rparr> S"
  proof -
    from that hs r k have "\<forall>i\<in>set (ltr_indices (aln_to_genome (rseq hs) (rstart hs)) ov).
        rseq r ! i = CHR ''-''"
      unfolding R by (auto simp add: gap_only_def)
    then show ?thesis unfolding v by (intro nongap_count_gaps) auto
  qed
qed

lemma touches_block_event:
  assumes "touches tree a \<lparr>iv_begin = b, iv_end = e, iv_data = n\<rparr> S"
  shows "\<exists>v. AddAgg (chrom, b, e, n, S) v \<in> set (block_events chrom tree a)"
proof -
  let ?R = "\<lparr>iv_begin = b, iv_end = e, iv_data = n\<rparr>"
  from assms obtain hs r where
    hs: "human_seq a = Some hs" and
    ov: "?R \<in> set (overlap tree (rstart hs) (rstart hs + rsize hs))" and
    idx: "ltr_indices (aln_to_genome (rseq hs) (rstart hs)) ?R \<noteq> []" and
    r: "r \<in> set a" "species_of (rid r) = S" "S \<noteq> ''hg38''"
    by (auto simp add: touches_def split: option.splits)
  have "AddAgg (chrom, b, e, n, S)
      (nongap_count (map (\<lambda>i. rseq r ! i) (ltr_indices (aln_to_genome (rseq hs) (rstart hs)) ?R)))
      \<in> set (region_events chrom a hs ?R)"
    unfolding AddAgg_region_events using idx r by auto
  with hs ov show ?thesis
    unfolding AddAgg_block_events by blast
qed

lemma scan_events_mem:
  "ev \<in> set (scan_events regions mafs) \<longleftrightarrow>
     (\<exists>chrom tree blocks a. (chrom, tree) \<in> set regions \<and> mafs chrom = Some blocks \<and>
        a \<in> set blocks \<and> ev \<in> set (block_events chrom tree a))"
proof -
  have one: "ev \<in> set (chrom_events mafs (chrom, tree)) \<longleftrightarrow>
      (\<exists>blocks. mafs chrom = Some blocks \<and> (\<exists>a\<in>set blocks. ev \<in> set (block_events chrom tree a)))"
    for chrom tree
    by (cases "mafs chrom") (auto simp add: chrom_events_def)
  have "ev \<in> set (scan_events regions mafs) \<longleftrightarrow>
      (\<exists>ct\<in>set regions. ev \<in> set (chrom_events mafs ct))"
    by (auto simp add: scan_events_def)
  also have "\<dots> \<longleftrightarrow> (\<exists>chrom tree. (chrom, tree) \<in> set regions \<and>
      ev \<in> set (chrom_events mafs (chrom, tree)))"
    by auto
  finally show ?thesis unfolding one by blast
qed

lemma AddAgg_scan_touched:
  "(\<exists>v. AddAgg (c, b, e, n, S) v \<in> set (scan_events regions mafs)) \<longleftrightarrow>
     touched regions mafs (c, b, e, n, S)"
proof
  assume "\<exists>v. AddAgg (c, b, e, n, S) v \<in> set (scan_events regions mafs)"
  then obtain v chrom tree blocks a where
    m: "(chrom, tree) \<in> set regions" "mafs chrom = Some blocks" "a \<in> set blocks" and
    ev: "AddAgg (c, b, e, n, S) v \<in> set (block_events chrom tree a)"
    unfolding scan_events_mem by blast
  from AddAgg_block_facts(1,2) [OF ev] m show "touched regions mafs (c, b, e, n, S)"
    by (auto simp add: touched_def)
next
  assume "touched regions mafs (c, b, e, n, S)"
  then obtain tree blocks a where
    m: "(c, tree) \<in> set regions" "mafs c = Some blocks" "a \<in> set blocks" and
    t: "touches tree a \<lparr>iv_begin = b, iv_end = e, iv_data = n\<rparr> S"
    by (auto simp add: touched_def)
  from touches_block_event [OF t, of c] obtain v where
    "AddAgg (c, b, e, n, S) v \<in> set (block_events c tree a)" ..
  with m show "\<exists>v. AddAgg (c, b, e, n, S) v \<in> set (scan_events regions mafs)"
    unfolding scan_events_mem by blast
qed

lemma AddAgg_scan_SetLen:
  assumes "AddAgg (c, b, e, n, S) v \<in> set (scan_events regions mafs)"
  shows "SetLen (c, b, e, n) \<in> set (scan_events regions mafs)" and "b < e"
proof -
  from assms obtain chrom tree blocks a where
    m: "(chrom, tree) \<in> set regions" "mafs chrom = Some blocks" "a \<in> set blocks" and
    ev: "AddAgg (c, b, e, n, S) v \<in> set (block_events chrom tree a)"
    unfolding scan_events_mem by blast
  from AddAgg_block_facts(5) [OF ev] m
  show "SetLen (c, b, e, n) \<in> set (scan_events regions mafs)"
    unfolding scan_events_mem by blast
  from AddAgg_block_facts(4) [OF ev] show "b < e" .
qed

section \<open>The dictionaries after a successful scan\<close>

lemma agg_final:
  assumes "scan regions mafs = Inr st"
  shows "map_of (agg_results st) k =
     (if touched regions mafs k then Some (added k (scan_events regions mafs)) else None)"
proof -
  obtain c b e n S where k: "k = (c, b, e, n, S)" by (cases k)
  from scan_events_ok [OF assms] show ?thesis
    using AddAgg_scan_touched [of c b e n S regions mafs]
    by (simp add: agg_after_events k init_state_def get0_def)
qed

lemma len_final:
  assumes "scan regions mafs = Inr st" and "touched regions mafs (c, b, e, n, S)"
  shows "map_of (ltr_lengths st) (c, b, e, n) = Some (e - b)" and "b < e"
proof -
  from assms(2) obtain v where "AddAgg (c, b, e, n, S) v \<in> set (scan_events regions mafs)"
    unfolding AddAgg_scan_touched [symmetric] ..
  from AddAgg_scan_SetLen [OF this] scan_events_ok [OF assms(1)]
  show "map_of (ltr_lengths st) (c, b, e, n) = Some (e - b)" and "b < e"
    by (simp_all add: len_after_events)
qed

lemma agg_keys_distinct:
  "distinct (map fst (agg_results st)) \<Longrightarrow>
     distinct (map fst (agg_results (fold apply_event evs st)))"
proof (induction evs arbitrary: st)
  case Nil
  then show ?case by simp
next
  case (Cons ev evs)
  have "distinct (map fst (agg_results (apply_event ev st)))"
  proof (cases ev)
    case (SetLen lk)
    obtain c b e n where "lk = (c, b, e, n)" by (cases lk)
    with SetLen Cons.prems show ?thesis by simp
  next
    case (AddAgg k n)
    with Cons.prems show ?thesis by (simp add: distinct_update)
  qed
  from Cons.IH [OF this] show ?case by simp
qed

lemma agg_entry_final:
  assumes "scan regions mafs = Inr st"
  shows "(k, v) \<in> set (agg_results st) \<longleftrightarrow>
           touched regions mafs k \<and> v = added k (scan_events regions mafs)"
proof -
  have "distinct (map fst (agg_results st))"
    unfolding scan_events_ok [OF assms] by (rule agg_keys_distinct) (simp add: init_state_def)
  then have "(k, v) \<in> set (agg_results st) \<longleftrightarrow> map_of (agg_results st) k = Some v"
    by simp
  then show ?thesis by (auto simp add: agg_final [OF assms])
qed

section \<open>The summary table\<close>

lemma added_zero: "\<forall>v. AddAgg k v \<in> set evs \<longrightarrow> v = 0 \<Longrightarrow> added k evs = 0"
  by (induction k evs rule: added.induct) auto

lemma records_mem:
  "row \<in> set (records st) \<longleftrightarrow>
     (\<exists>k v. (k, v) \<in> set (agg_results st) \<and> row = summary_row (ltr_lengths st) (k, v))"
  unfolding records_def set_map image_iff by (metis prod.collapse)

lemma summary_row_key:
  "summary_row lens ((c, b, e, n, S), v) = row \<Longrightarrow>
     row_chrom row = c \<and> row_start row = b \<and> row_end row = e \<and> row_ltr row = n \<and>
     row_species row = S \<and> row_aligned_bases row = v"
  by (auto simp add: summary_row_def Let_def)

text \<open>
  C6.  After a successful scan, a region and species that no block touched has no
  accumulator entry, and the output table has no row for it.
\<close>

theorem untouched_pair_has_no_row:
  assumes "scan regions mafs = Inr st"
    and "\<not> touched regions mafs (chrom, b, e, name, S)"
  shows "map_of (agg_results st) (chrom, b, e, name, S) = None \<and>
         (\<forall>row\<in>set (records st).
            \<not> (row_chrom row = chrom \<and> row_start row = b \<and> row_end row = e \<and>
               row_ltr row = name \<and> row_species row = S))"
proof -
  have none: "map_of (agg_results st) (chrom, b, e, name, S) = None"
    using assms by (simp add: agg_final)
  have "\<not> (row_chrom row = chrom \<and> row_start row = b \<and> row_end row = e \<and>
            row_ltr row = name \<and> row_species row = S)"
    if "row \<in> set (records st)" for row
  proof
    assume same: "row_chrom row = chrom \<and> row_start row = b \<and> row_end row = e \<and>
            row_ltr row = name \<and> row_species row = S"
    from that obtain k v where kv: "(k, v) \<in> set (agg_results st)"
      and row: "row = summary_row (ltr_lengths st) (k, v)"
      unfolding records_mem by blast
    obtain c' b' e' n' S' where k: "k = (c', b', e', n', S')" by (cases k)
    from summary_row_key [OF row [symmetric, unfolded k]] same
    have "k = (chrom, b, e, name, S)" by (simp add: k)
    with kv assms show False by (simp add: agg_entry_final)
  qed
  with none show ?thesis by blast
qed

text \<open>
  C9, as amended.  When some block touches (region, species), so that the block
  overlaps the region with at least one mapped column and has a row of that species,
  and in every block that touches the pair the rows of that species have only gaps at
  the selected columns, the accumulator holds the entry with value 0 and the output
  has the explicit row with \<open>aligned_bases = 0\<close>, the region's length and coverage 0.
  By C6 a pair that was never touched has no row.
\<close>

theorem gap_only_pair_has_zero_row:
  assumes "scan regions mafs = Inr st"
    and "touched regions mafs (chrom, b, e, name, S)"
    and "\<forall>tree blocks. (chrom, tree) \<in> set regions \<longrightarrow> mafs chrom = Some blocks \<longrightarrow>
           (\<forall>a\<in>set blocks. touches tree a \<lparr>iv_begin = b, iv_end = e, iv_data = name\<rparr> S \<longrightarrow>
              gap_only a \<lparr>iv_begin = b, iv_end = e, iv_data = name\<rparr> S)"
  shows "map_of (agg_results st) (chrom, b, e, name, S) = Some 0 \<and>
         \<lparr>row_chrom = chrom, row_start = b, row_end = e, row_ltr = name, row_species = S,
          row_aligned_bases = 0, row_ltr_len = e - b, row_coverage = 0\<rparr> \<in> set (records st)"
proof -
  let ?k = "(chrom, b, e, name, S)"
  have "v = 0" if "AddAgg ?k v \<in> set (scan_events regions mafs)" for v
  proof -
    from that obtain c tree blocks a where
      m: "(c, tree) \<in> set regions" "mafs c = Some blocks" "a \<in> set blocks" and
      ev: "AddAgg ?k v \<in> set (block_events c tree a)"
      unfolding scan_events_mem by blast
    from AddAgg_block_facts(1,2) [OF ev] have "chrom = c"
      and "touches tree a \<lparr>iv_begin = b, iv_end = e, iv_data = name\<rparr> S" .
    with m assms(3) have "gap_only a \<lparr>iv_begin = b, iv_end = e, iv_data = name\<rparr> S"
      by blast
    from AddAgg_block_facts(6) [OF ev this] show ?thesis .
  qed
  then have zero: "added ?k (scan_events regions mafs) = 0"
    by (intro added_zero) blast
  with assms have entry: "(?k, 0) \<in> set (agg_results st)"
    by (simp add: agg_entry_final)
  from len_final [OF assms(1,2)]
  have "summary_row (ltr_lengths st) (?k, 0) =
      \<lparr>row_chrom = chrom, row_start = b, row_end = e, row_ltr = name, row_species = S,
       row_aligned_bases = 0, row_ltr_len = e - b, row_coverage = 0\<rparr>"
    by (simp add: summary_row_def true_div_zero round3_zero)
  with entry have "\<lparr>row_chrom = chrom, row_start = b, row_end = e, row_ltr = name,
      row_species = S, row_aligned_bases = 0, row_ltr_len = e - b, row_coverage = 0\<rparr>
      \<in> set (records st)"
    unfolding records_mem by metis
  moreover from assms zero have "map_of (agg_results st) ?k = Some 0"
    by (simp add: agg_final)
  ultimately show ?thesis by simp
qed

text \<open>
  C10.  After a successful scan, the length cache holds \<open>end - start\<close> for the region
  of every accumulator key.  Every output row therefore has that length, which is
  positive, and its coverage is the rounding of the division of \<open>aligned_bases\<close> by
  \<open>end - start\<close>, as the interpreter performs them: the fallback to length 0 and
  coverage 0 is never taken.  A key only arises from a region
  with a selected column, which already forces \<open>start < end\<close>, so this holds in
  particular when every loaded region has \<open>start < end\<close>.
\<close>

theorem cached_length_for_every_key:
  assumes "scan regions mafs = Inr st"
  shows "(\<forall>((chrom, b, e, name, S), v)\<in>set (agg_results st).
            map_of (ltr_lengths st) (chrom, b, e, name) = Some (e - b)) \<and>
         (\<forall>row\<in>set (records st).
            row_ltr_len row = row_end row - row_start row \<and> 0 < row_ltr_len row \<and>
            row_coverage row =
              round3 (true_div (row_aligned_bases row) (row_end row - row_start row)))"
proof -
  have cache: "map_of (ltr_lengths st) (c, b, e, n) = Some (e - b) \<and> b < e"
    if "((c, b, e, n, S), v) \<in> set (agg_results st)" for c b e n S v
    using that len_final [OF assms, of c b e n S] by (simp add: agg_entry_final [OF assms])
  have "row_ltr_len row = row_end row - row_start row \<and> 0 < row_ltr_len row \<and>
        row_coverage row =
          round3 (true_div (row_aligned_bases row) (row_end row - row_start row))"
    if "row \<in> set (records st)" for row
  proof -
    from that obtain k v where kv: "(k, v) \<in> set (agg_results st)"
      and row: "row = summary_row (ltr_lengths st) (k, v)"
      unfolding records_mem by blast
    obtain c b e n S where k: "k = (c, b, e, n, S)" by (cases k)
    from cache [OF kv [unfolded k]] show ?thesis
      by (simp add: row k summary_row_def Let_def)
  qed
  with cache show ?thesis by blast
qed

section \<open>Bounding what one key receives\<close>

lemma added_append: "added k (xs @ ys) = added k xs + added k ys"
  by (induction k xs rule: added.induct) auto

lemma added_concat: "added k (concat xss) = sum_list (map (added k) xss)"
  by (induction xss) (simp_all add: added_append)

lemma added_map:
  "added k (map (\<lambda>r. AddAgg (key r) (val r)) rs) =
     sum_list (map (\<lambda>r. if key r = k then val r else 0) rs)"
  by (induction rs) auto

lemma sum_list_at_most_one:
  fixes f :: "'a \<Rightarrow> int"
  assumes "distinct (map g xs)"
    and "\<And>x. x \<in> set xs \<Longrightarrow> g x \<noteq> key \<Longrightarrow> f x = 0"
    and "\<And>x. x \<in> set xs \<Longrightarrow> f x \<le> B"
    and "0 \<le> B"
  shows "sum_list (map f xs) \<le> B"
  using assms
proof (induction xs)
  case Nil
  then show ?case by simp
next
  case (Cons x xs)
  show ?case
  proof (cases "g x = key")
    case True
    have "f y = 0" if "y \<in> set xs" for y
    proof -
      from Cons.prems(1) have "g x \<notin> g ` set xs" by simp
      with that True have "g y \<noteq> key" by (metis imageI)
      with that Cons.prems(2) show ?thesis by simp
    qed
    then have "sum_list (map f xs) = 0"
      by (induction xs) simp_all
    with Cons.prems(3) [of x] show ?thesis by simp
  next
    case False
    with Cons.prems(2) [of x] have "f x = 0" by simp
    moreover from Cons.IH Cons.prems have "sum_list (map f xs) \<le> B" by simp
    ultimately show ?thesis by simp
  qed
qed

lemma nongap_count_le: "nongap_count s \<le> int (length s)"
  by (simp add: nongap_count_def)

lemma added_row_events_le:
  assumes "distinct (map (\<lambda>r. species_of (rid r)) a)"
  shows "added (c, b, e, n, S) (row_events chrom ov idx a) \<le> int (length idx)"
proof -
  let ?rs = "filter (\<lambda>r. species_of (rid r) \<noteq> ''hg38'') a"
  let ?key = "\<lambda>r. (chrom, iv_begin ov, iv_end ov, iv_data ov, species_of (rid r))"
  let ?val = "\<lambda>r. nongap_count (map (\<lambda>i. rseq r ! i) idx)"
  have "added (c, b, e, n, S) (row_events chrom ov idx a) =
      sum_list (map (\<lambda>r. if ?key r = (c, b, e, n, S) then ?val r else 0) ?rs)"
    unfolding row_events_def by (rule added_map)
  also have "\<dots> \<le> int (length idx)"
  proof (rule sum_list_at_most_one [where g = "\<lambda>r. species_of (rid r)" and key = S])
    show "distinct (map (\<lambda>r. species_of (rid r)) ?rs)"
      using assms by (rule distinct_map_filter)
    show "(if ?key x = (c, b, e, n, S) then ?val x else 0) = 0"
      if "species_of (rid x) \<noteq> S" for x
      using that by simp
    show "(if ?key x = (c, b, e, n, S) then ?val x else 0) \<le> int (length idx)" for x
      using nongap_count_le [of "map (\<lambda>i. rseq x ! i) idx"] by simp
    show "0 \<le> int (length idx)" by simp
  qed
  finally show ?thesis .
qed

lemma added_region_events_le:
  assumes "distinct (map (\<lambda>r. species_of (rid r)) a)"
  shows "added (c, b, e, n, S) (region_events chrom a hs ov) \<le>
           int (length (ltr_indices (aln_to_genome (rseq hs) (rstart hs)) ov))"
  using added_row_events_le [OF assms, of c b e n S chrom ov]
  by (simp add: region_events_def Let_def)

lemma added_region_events_other:
  assumes "ov \<noteq> \<lparr>iv_begin = b, iv_end = e, iv_data = n\<rparr>"
  shows "added (c, b, e, n, S) (region_events chrom a hs ov) = 0"
proof (rule added_none, intro allI notI)
  fix v assume "AddAgg (c, b, e, n, S) v \<in> set (region_events chrom a hs ov)"
  then have "b = iv_begin ov \<and> e = iv_end ov \<and> n = iv_data ov"
    unfolding AddAgg_region_events by auto
  then have "ov = \<lparr>iv_begin = b, iv_end = e, iv_data = n\<rparr>" by simp
  with assms show False by simp
qed

subsection \<open>The selected columns and the anchor's span\<close>

lemma filter_enumerate_length:
  "length (filter (\<lambda>(i, g). Q g) (enumerate m xs)) = length (filter Q xs)"
  by (induction xs arbitrary: m) simp_all

lemma filter_positions_length:
  "length (filter (\<lambda>g. case g of None \<Rightarrow> False | Some p \<Rightarrow> P p) gs) =
     length (filter P (map the (filter (\<lambda>g. g \<noteq> None) gs)))"
  by (induction gs) (auto split: option.splits)

lemma offsets_set: "set (map (\<lambda>k. rs + int k) [0..<m]) = {rs..<rs + int m}"
proof -
  have "x \<in> (\<lambda>k. rs + int k) ` {0..<m}" if "rs \<le> x" "x < rs + int m" for x
  proof
    show "x = rs + int (nat (x - rs))" using that by simp
    show "nat (x - rs) \<in> {0..<m}" using that by auto
  qed
  then show ?thesis by auto
qed

lemma offsets_distinct: "distinct (map (\<lambda>k. rs + int k) [0..<m])"
  by (simp add: distinct_map inj_on_def)

lemma ltr_indices_length:
  "length (ltr_indices (aln_to_genome s rs) ov) =
     card ({rs..<rs + nongap_count s} \<inter> {iv_begin ov..<iv_end ov})"
proof -
  let ?P = "\<lambda>p. iv_begin ov \<le> p \<and> p < iv_end ov"
  have "length (ltr_indices (aln_to_genome s rs) ov) =
      length (filter ?P (map the (filter (\<lambda>g. g \<noteq> None) (aln_to_genome s rs))))"
    unfolding ltr_indices_def length_map
    by (simp only: filter_enumerate_length filter_positions_length)
  also have "\<dots> = length (filter ?P (map (\<lambda>k. rs + int k)
      [0..<length (filter (\<lambda>b. b \<noteq> CHR ''-'') s)]))"
    by (simp only: aln_to_genome_def walk_positions)
  also have "\<dots> = card ({x. ?P x} \<inter> {rs..<rs + nongap_count s})"
    by (simp only: distinct_length_filter [OF offsets_distinct] offsets_set nongap_count_def)
  also have "{x. ?P x} \<inter> {rs..<rs + nongap_count s} =
      {rs..<rs + nongap_count s} \<inter> {iv_begin ov..<iv_end ov}"
    by auto
  finally show ?thesis .
qed

lemma human_seq_in: "human_seq a = Some hs \<Longrightarrow> hs \<in> set a"
  by (auto simp add: human_seq_def find_Some_iff)

lemma added_block_events_le:
  assumes wf: "wf_block a" and tree: "distinct tree"
  shows "added (c, b, e, n, S) (block_events chrom tree a) \<le>
           int (card (anchor_span a \<inter> {b..<e}))"
proof (cases "human_seq a")
  case None
  then show ?thesis by (simp add: block_events_def)
next
  case (Some hs)
  let ?R = "\<lparr>iv_begin = b, iv_end = e, iv_data = n\<rparr>"
  let ?ovs = "overlap tree (rstart hs) (rstart hs + rsize hs)"
  from wf have sp: "distinct (map (\<lambda>r. species_of (rid r)) a)"
    and sz: "\<forall>r\<in>set a. nongap_count (rseq r) = rsize r"
    by (simp_all add: wf_block_def)
  from human_seq_in [OF Some] sz have size: "nongap_count (rseq hs) = rsize hs" by simp
  have span: "anchor_span a = {rstart hs..<rstart hs + rsize hs}"
    using Some by (simp add: anchor_span_def)
  have "added (c, b, e, n, S) (block_events chrom tree a) =
      sum_list (map (\<lambda>ov. added (c, b, e, n, S) (region_events chrom a hs ov)) ?ovs)"
    using Some by (simp add: block_events_def added_concat comp_def)
  also have "\<dots> \<le> int (card (anchor_span a \<inter> {b..<e}))"
  proof (rule sum_list_at_most_one [where g = "\<lambda>ov. ov" and key = ?R])
    show "distinct (map (\<lambda>ov. ov) ?ovs)"
      using tree by (simp add: overlap_def)
    show "added (c, b, e, n, S) (region_events chrom a hs ov) = 0" if "ov \<noteq> ?R" for ov
      using that by (rule added_region_events_other)
    show "added (c, b, e, n, S) (region_events chrom a hs ov) \<le>
        int (card (anchor_span a \<inter> {b..<e}))" if "ov \<in> set ?ovs" for ov
    proof (cases "ov = ?R")
      case True
      have "added (c, b, e, n, S) (region_events chrom a hs ov) \<le>
          int (length (ltr_indices (aln_to_genome (rseq hs) (rstart hs)) ov))"
        using sp by (rule added_region_events_le)
      also have "\<dots> = int (card (anchor_span a \<inter> {b..<e}))"
        unfolding ltr_indices_length size span using True by simp
      finally show ?thesis .
    next
      case False
      then show ?thesis by (simp add: added_region_events_other)
    qed
    show "0 \<le> int (card (anchor_span a \<inter> {b..<e}))" by simp
  qed
  finally show ?thesis .
qed

subsection \<open>Blocks that do not overlap\<close>

lemma anchor_span_finite: "finite (anchor_span a)"
  by (simp add: anchor_span_def split: option.splits)

lemma nonoverlapping_cover:
  assumes "nonoverlapping blocks"
  shows "sum_list (map (\<lambda>a. int (card (anchor_span a \<inter> I))) blocks) =
           int (card ((\<Union>a\<in>set blocks. anchor_span a) \<inter> I))"
  using assms
proof (induction blocks)
  case Nil
  show ?case by simp
next
  case (Cons a as)
  let ?U = "\<Union>a\<in>set as. anchor_span a"
  from Cons.prems have disj: "(anchor_span a \<inter> I) \<inter> (?U \<inter> I) = {}" by auto
  have fin: "finite (anchor_span a \<inter> I)" "finite (?U \<inter> I)"
    by (simp_all add: anchor_span_finite)
  have "(\<Union>a\<in>set (a # as). anchor_span a) \<inter> I = (anchor_span a \<inter> I) \<union> (?U \<inter> I)"
    by auto
  then have "card ((\<Union>a\<in>set (a # as). anchor_span a) \<inter> I) =
      card (anchor_span a \<inter> I) + card (?U \<inter> I)"
    using card_Un_disjoint [OF fin disj] by simp
  with Cons show ?case by simp
qed

lemma added_file_le:
  assumes wf: "\<forall>a\<in>set blocks. wf_block a" and no: "nonoverlapping blocks"
    and tree: "distinct tree" and be: "b \<le> e"
  shows "added (c, b, e, n, S) (concat (map (block_events chrom tree) blocks)) \<le> e - b"
proof -
  have "added (c, b, e, n, S) (concat (map (block_events chrom tree) blocks)) =
      sum_list (map (\<lambda>a. added (c, b, e, n, S) (block_events chrom tree a)) blocks)"
    by (simp add: added_concat comp_def)
  also have "\<dots> \<le> sum_list (map (\<lambda>a. int (card (anchor_span a \<inter> {b..<e}))) blocks)"
    using wf tree by (intro sum_list_mono added_block_events_le) auto
  also have "\<dots> = int (card ((\<Union>a\<in>set blocks. anchor_span a) \<inter> {b..<e}))"
    using no by (rule nonoverlapping_cover)
  also have "\<dots> \<le> int (card {b..<e})"
    by (intro of_nat_mono card_mono) auto
  also have "\<dots> = e - b" using be by simp
  finally show ?thesis .
qed

lemma AddAgg_chrom_events:
  assumes "AddAgg (c, b, e, n, S) v \<in> set (chrom_events mafs (c', tree))"
  shows "c = c'" and "0 \<le> v"
proof -
  from assms obtain blocks a where "mafs c' = Some blocks" "a \<in> set blocks"
    and ev: "AddAgg (c, b, e, n, S) v \<in> set (block_events c' tree a)"
    by (cases "mafs c'") (auto simp add: chrom_events_def)
  from AddAgg_block_facts(1,3) [OF ev] show "c = c'" and "0 \<le> v" .
qed

lemma added_chrom_events_other:
  "c' \<noteq> c \<Longrightarrow> added (c, b, e, n, S) (chrom_events mafs (c', tree)) = 0"
  by (rule added_none) (auto dest: AddAgg_chrom_events(1))

lemma added_chrom_events_le:
  assumes "\<forall>chrom blocks. mafs chrom = Some blocks \<longrightarrow>
             (\<forall>a\<in>set blocks. wf_block a) \<and> nonoverlapping blocks"
    and "distinct tree" and "b \<le> e"
  shows "added (c, b, e, n, S) (chrom_events mafs (c', tree)) \<le> e - b"
proof (cases "mafs c'")
  case None
  with assms(3) show ?thesis by (simp add: chrom_events_def)
next
  case (Some blocks)
  with assms(1) have "\<forall>a\<in>set blocks. wf_block a" "nonoverlapping blocks" by auto
  from added_file_le [OF this assms(2,3)] Some show ?thesis
    by (simp add: chrom_events_def)
qed

lemma added_scan_events_le:
  assumes wf: "\<forall>chrom blocks. mafs chrom = Some blocks \<longrightarrow>
             (\<forall>a\<in>set blocks. wf_block a) \<and> nonoverlapping blocks"
    and keys: "distinct (map fst regions)"
    and trees: "\<forall>(chrom, tree)\<in>set regions. distinct tree"
    and be: "b \<le> e"
  shows "added (c, b, e, n, S) (scan_events regions mafs) \<le> e - b"
proof -
  have "added (c, b, e, n, S) (scan_events regions mafs) =
      sum_list (map (\<lambda>ct. added (c, b, e, n, S) (chrom_events mafs ct)) regions)"
    by (simp add: scan_events_def added_concat comp_def)
  also have "\<dots> \<le> e - b"
  proof (rule sum_list_at_most_one [where g = fst and key = c])
    show "distinct (map fst regions)" by fact
    show "added (c, b, e, n, S) (chrom_events mafs ct) = 0" if "fst ct \<noteq> c" for ct
      using that added_chrom_events_other [of "fst ct" c b e n S mafs "snd ct"] by simp
    show "added (c, b, e, n, S) (chrom_events mafs ct) \<le> e - b" if "ct \<in> set regions" for ct
    proof -
      from that trees have "distinct (snd ct)" by auto
      from added_chrom_events_le [OF wf this be, of c n S "fst ct"] show ?thesis by simp
    qed
    show "0 \<le> e - b" using be by simp
  qed
  finally show ?thesis .
qed

lemma added_nonneg:
  "\<forall>k v. AddAgg k v \<in> set evs \<longrightarrow> 0 \<le> v \<Longrightarrow> 0 \<le> added k evs"
  by (induction k evs rule: added.induct) auto

lemma added_scan_events_nonneg: "0 \<le> added k (scan_events regions mafs)"
proof (rule added_nonneg, intro allI impI)
  fix k' v assume "AddAgg k' v \<in> set (scan_events regions mafs)"
  then obtain chrom tree blocks a where
    ev: "AddAgg k' v \<in> set (block_events chrom tree a)"
    unfolding scan_events_mem by blast
  obtain c b e n S where "k' = (c, b, e, n, S)" by (cases k')
  with ev AddAgg_block_facts(3) show "0 \<le> v" by blast
qed

subsection \<open>The region index is a dictionary of interval sets\<close>

lemma update_mem: "x \<in> set (AList.update k v al) \<Longrightarrow> x = (k, v) \<or> x \<in> set al"
  by (induction al) (auto split: if_splits)

lemma addi_distinct: "distinct tree \<Longrightarrow> distinct (addi b e d tree)"
  by (simp add: addi_def Let_def)

lemma ltr_regions_snoc: "ltr_regions (locs @ [x]) = load_loc x (ltr_regions locs)"
  by (simp add: ltr_regions_def)

lemma ltr_regions_distinct:
  "distinct (map fst (ltr_regions locs)) \<and>
   (\<forall>(chrom, tree)\<in>set (ltr_regions locs). distinct tree)"
proof (induction locs rule: rev_induct)
  case Nil
  show ?case by (simp add: ltr_regions_def)
next
  case (snoc x locs)
  obtain cn s e l where x: "x = (cn, s, e, l)" by (cases x)
  let ?regs = "ltr_regions locs"
  let ?tree = "case map_of ?regs (replace_chr cn) of None \<Rightarrow> [] | Some t \<Rightarrow> t"
  have new: "ltr_regions (locs @ [x]) = AList.update (replace_chr cn) (addi s e l ?tree) ?regs"
    by (simp add: ltr_regions_snoc x load_loc_def Let_def)
  have "distinct ?tree"
  proof (cases "map_of ?regs (replace_chr cn)")
    case None
    then show ?thesis by simp
  next
    case (Some t)
    then have "(replace_chr cn, t) \<in> set ?regs" by (rule map_of_SomeD)
    with snoc Some show ?thesis by auto
  qed
  then have tree: "distinct (addi s e l ?tree)" by (rule addi_distinct)
  have "distinct t" if "(c, t) \<in> set (ltr_regions (locs @ [x]))" for c t
    using update_mem [OF that [unfolded new]] tree snoc by auto
  moreover have "distinct (map fst (ltr_regions (locs @ [x])))"
    unfolding new using snoc by (simp add: distinct_update)
  ultimately show ?case by auto
qed

section \<open>Bounds on the aligned bases\<close>

text \<open>
  C5.  When every block of every alignment file is well-formed (exactly one anchor row,
  one row per species, each row's non-gap count equal to its declared size) and the
  blocks of a file do not overlap one another on the anchor's reference coordinates,
  every row of the output has \<open>0 \<le> aligned_bases \<le> region_length\<close>.
\<close>

theorem aligned_bases_bounded:
  assumes "scan (ltr_regions locs) mafs = Inr st"
    and "\<forall>chrom blocks. mafs chrom = Some blocks \<longrightarrow>
           (\<forall>a\<in>set blocks. wf_block a) \<and> nonoverlapping blocks"
  shows "\<forall>row\<in>set (records st).
           0 \<le> row_aligned_bases row \<and> row_aligned_bases row \<le> row_ltr_len row"
proof
  fix row assume "row \<in> set (records st)"
  then obtain k v where kv: "(k, v) \<in> set (agg_results st)"
    and row: "row = summary_row (ltr_lengths st) (k, v)"
    unfolding records_mem by blast
  obtain c b e n S where k: "k = (c, b, e, n, S)" by (cases k)
  from kv have t: "touched (ltr_regions locs) mafs (c, b, e, n, S)"
    and v: "v = added (c, b, e, n, S) (scan_events (ltr_regions locs) mafs)"
    by (simp_all add: agg_entry_final [OF assms(1)] k)
  from len_final [OF assms(1) t]
  have len: "map_of (ltr_lengths st) (c, b, e, n) = Some (e - b)" and be: "b < e" .
  from ltr_regions_distinct [of locs]
  have "distinct (map fst (ltr_regions locs))"
    and "\<forall>(chrom, tree)\<in>set (ltr_regions locs). distinct tree"
    by simp_all
  from added_scan_events_le [OF assms(2) this, of b e c n S] be
  have "v \<le> e - b" by (simp add: v)
  moreover have "0 \<le> v" unfolding v by (rule added_scan_events_nonneg)
  ultimately show "0 \<le> row_aligned_bases row \<and> row_aligned_bases row \<le> row_ltr_len row"
    using len by (simp add: row k summary_row_def Let_def)
qed

section \<open>When the scan succeeds\<close>

lemma fold_err_total:
  assumes "\<And>x s. x \<in> set xs \<Longrightarrow> \<exists>s'. f x s = Inr s'"
  shows "\<exists>s'. fold_err f xs s = Inr s'"
  using assms
proof (induction xs arbitrary: s)
  case Nil
  show ?case by simp
next
  case (Cons x xs)
  from Cons.prems [of x s] obtain s1 where "f x s = Inr s1" by auto
  moreover from Cons.IH [of s1] Cons.prems obtain s' where "fold_err f xs s1 = Inr s'"
    by auto
  ultimately show ?case by simp
qed

lemma ltr_indices_bound: "i \<in> set (ltr_indices a2g ov) \<Longrightarrow> i < length a2g"
  by (auto simp add: ltr_indices_def in_set_enumerate_eq)

lemma block_step_total:
  assumes "rows_cover_anchor a"
  shows "\<exists>st'. block_step chrom tree a st = Inr st'"
proof (cases "human_seq a")
  case None
  then show ?thesis by (simp add: block_step_def)
next
  case (Some hs)
  have row: "\<exists>agg'. rec_step chrom ov (ltr_indices (aln_to_genome (rseq hs) (rstart hs)) ov) r agg
      = Inr agg'" if "r \<in> set a" for r ov agg
  proof -
    from that assms Some have "length (rseq hs) \<le> length (rseq r)"
      by (simp add: rows_cover_anchor_def)
    then have "\<forall>i\<in>set (ltr_indices (aln_to_genome (rseq hs) (rstart hs)) ov).
        i < length (rseq r)"
      using ltr_indices_bound [of _ "aln_to_genome (rseq hs) (rstart hs)" ov]
      by (fastforce simp add: aln_to_genome_def walk_length)
    then show ?thesis
      by (auto simp add: rec_step_def Let_def)
  qed
  have region: "\<exists>st'. region_step chrom a hs ov st = Inr st'" for ov st
  proof -
    let ?st1 = "st\<lparr>ltr_lengths := AList.update (chrom, iv_begin ov, iv_end ov, iv_data ov)
        (iv_end ov - iv_begin ov) (ltr_lengths st)\<rparr>"
    from fold_err_total [of a "rec_step chrom ov
        (ltr_indices (aln_to_genome (rseq hs) (rstart hs)) ov)" "agg_results ?st1"] row
    obtain agg where "fold_err (rec_step chrom ov
        (ltr_indices (aln_to_genome (rseq hs) (rstart hs)) ov)) a (agg_results ?st1) = Inr agg"
      by blast
    then show ?thesis by (simp add: region_step_def Let_def)
  qed
  from fold_err_total [of "overlap tree (rstart hs) (rstart hs + rsize hs)"
      "region_step chrom a hs" st] region Some
  show ?thesis by (simp add: block_step_def Let_def)
qed

text \<open>The scan raises nothing when every row of every block covers the anchor row.\<close>

lemma scan_total:
  assumes "\<forall>chrom blocks. mafs chrom = Some blocks \<longrightarrow> (\<forall>a\<in>set blocks. rows_cover_anchor a)"
  shows "\<exists>st. scan regions mafs = Inr st"
proof -
  have "\<exists>st'. chrom_step mafs ct st = Inr st'" for ct st
  proof -
    obtain chrom tree where ct: "ct = (chrom, tree)" by (cases ct)
    show ?thesis
    proof (cases "mafs chrom")
      case None
      with ct show ?thesis by (simp add: chrom_step_def)
    next
      case (Some blocks)
      with assms have "\<forall>a\<in>set blocks. rows_cover_anchor a" by simp
      with fold_err_total [of blocks "block_step chrom tree" st] block_step_total
      have "\<exists>st'. fold_err (block_step chrom tree) blocks st = Inr st'" by blast
      with Some ct show ?thesis by (simp add: chrom_step_def)
    qed
  qed
  with fold_err_total [of regions "chrom_step mafs" init_state]
  show ?thesis by (simp add: scan_def)
qed

section \<open>The properties on concrete input\<close>

lemmas scan_unfold =
  scan_def ltr_regions_def load_loc_def addi_def chrom_step_def block_step_def human_seq_def
  overlap_def overlaps_def region_step_def rec_step_def species_of_def nongap_count_def
  get0_def init_state_def aln_to_genome_def aln_walk_def aln_step_def ltr_indices_def
  enumerate_eq_zip upt_conv_Cons

text \<open>The coverage scenario has no gorilla row.\<close>

theorem untouched_pair_has_no_row_witness:
  "\<not> touched (ltr_regions [(''chr1'', 100, 110, ''chr1:100-110'')])
      (\<lambda>c. if c = ''1'' then
         Some [[\<lparr>rid = ''hg38.chr1'', rseq = ''ACGT--ACGT'', rstart = 95, rsize = 8\<rparr>,
                \<lparr>rid = ''panTro4.chr1'', rseq = ''ACGTAAACGT'', rstart = 0, rsize = 10\<rparr>]]
       else None)
      (''1'', 100, 110, ''chr1:100-110'', ''gorGor3'') \<and>
   map_of [((''1'', 100 :: int, 110 :: int, ''chr1:100-110'', ''panTro4''), 3 :: int)]
     (''1'', 100, 110, ''chr1:100-110'', ''gorGor3'') = None \<and>
   records \<lparr>agg_results = [((''1'', 100, 110, ''chr1:100-110'', ''panTro4''), 3)],
            ltr_lengths = [((''1'', 100, 110, ''chr1:100-110''), 10)]\<rparr> =
     [\<lparr>row_chrom = ''1'', row_start = 100, row_end = 110, row_ltr = ''chr1:100-110'',
       row_species = ''panTro4'', row_aligned_bases = 3, row_ltr_len = 10,
       row_coverage = 3 / 10\<rparr>]"
proof -
  let ?mafs = "\<lambda>c. if c = ''1'' then
         Some [[\<lparr>rid = ''hg38.chr1'', rseq = ''ACGT--ACGT'', rstart = 95, rsize = 8\<rparr>,
                \<lparr>rid = ''panTro4.chr1'', rseq = ''ACGTAAACGT'', rstart = 0, rsize = 10\<rparr>]]
       else None"
  have s: "scan (ltr_regions [(''chr1'', 100, 110, ''chr1:100-110'')]) ?mafs =
      Inr \<lparr>agg_results = [((''1'', 100, 110, ''chr1:100-110'', ''panTro4''), 3)],
           ltr_lengths = [((''1'', 100, 110, ''chr1:100-110''), 10)]\<rparr>"
    by (simp add: scan_unfold)
  have nt: "\<not> touched (ltr_regions [(''chr1'', 100, 110, ''chr1:100-110'')]) ?mafs
      (''1'', 100, 110, ''chr1:100-110'', ''gorGor3'')"
    by (simp add: touched_def touches_def scan_unfold)
  from untouched_pair_has_no_row [OF s nt] nt show ?thesis
    by (simp add: records_def summary_row_def round3_3_10)
qed

text \<open>The coverage scenario with gaps in the chimpanzee row at columns 7, 8, 9.\<close>

theorem gap_only_pair_has_zero_row_witness:
  "\<lparr>row_chrom = ''1'', row_start = 100, row_end = 110, row_ltr = ''chr1:100-110'',
    row_species = ''panTro4'', row_aligned_bases = 0, row_ltr_len = 10, row_coverage = 0\<rparr>
   \<in> set (records \<lparr>agg_results = [((''1'', 100, 110, ''chr1:100-110'', ''panTro4''), 0)],
                    ltr_lengths = [((''1'', 100, 110, ''chr1:100-110''), 10)]\<rparr>)"
proof -
  let ?mafs = "\<lambda>c. if c = ''1'' then
         Some [[\<lparr>rid = ''hg38.chr1'', rseq = ''ACGT--ACGT'', rstart = 95, rsize = 8\<rparr>,
                \<lparr>rid = ''panTro4.chr1'', rseq = ''ACGTAAA---'', rstart = 0, rsize = 7\<rparr>]]
       else None"
  let ?regions = "ltr_regions [(''chr1'', 100, 110, ''chr1:100-110'')]"
  have s: "scan ?regions ?mafs =
      Inr \<lparr>agg_results = [((''1'', 100, 110, ''chr1:100-110'', ''panTro4''), 0)],
           ltr_lengths = [((''1'', 100, 110, ''chr1:100-110''), 10)]\<rparr>"
    by (simp add: scan_unfold)
  have t: "touched ?regions ?mafs (''1'', 100, 110, ''chr1:100-110'', ''panTro4'')"
    by (simp add: touched_def touches_def scan_unfold)
  have g: "\<forall>tree blocks. (''1'', tree) \<in> set ?regions \<longrightarrow> ?mafs ''1'' = Some blocks \<longrightarrow>
      (\<forall>a\<in>set blocks.
         touches tree a \<lparr>iv_begin = 100, iv_end = 110, iv_data = ''chr1:100-110''\<rparr> ''panTro4'' \<longrightarrow>
         gap_only a \<lparr>iv_begin = 100, iv_end = 110, iv_data = ''chr1:100-110''\<rparr> ''panTro4'')"
    by (simp add: gap_only_def scan_unfold)
  from gap_only_pair_has_zero_row [OF s t g] show ?thesis by simp
qed

text \<open>
  C9, as stated, fails when another block adds to the same pair.  The first block
  covers 100..102 of the region [100, 110) and its chimpanzee row has only gaps there;
  the second covers 103..104 with two chimpanzee bases.  The pair's row has
  \<open>aligned_bases = 2\<close> and coverage 0.2, and there is no row with 0.
\<close>

theorem gap_block_then_aligned_block_counterexample:
  "touches [\<lparr>iv_begin = 100, iv_end = 110, iv_data = ''chr1:100-110''\<rparr>]
     [\<lparr>rid = ''hg38.chr1'', rseq = ''ACG'', rstart = 100, rsize = 3\<rparr>,
      \<lparr>rid = ''panTro4.chr1'', rseq = ''---'', rstart = 0, rsize = 0\<rparr>]
     \<lparr>iv_begin = 100, iv_end = 110, iv_data = ''chr1:100-110''\<rparr> ''panTro4'' \<and>
   gap_only
     [\<lparr>rid = ''hg38.chr1'', rseq = ''ACG'', rstart = 100, rsize = 3\<rparr>,
      \<lparr>rid = ''panTro4.chr1'', rseq = ''---'', rstart = 0, rsize = 0\<rparr>]
     \<lparr>iv_begin = 100, iv_end = 110, iv_data = ''chr1:100-110''\<rparr> ''panTro4'' \<and>
   check_erv_presence [(''chr1'', 100, 110, ''chr1:100-110'')]
     (\<lambda>c. if c = ''1'' then
        Some [[\<lparr>rid = ''hg38.chr1'', rseq = ''ACG'', rstart = 100, rsize = 3\<rparr>,
               \<lparr>rid = ''panTro4.chr1'', rseq = ''---'', rstart = 0, rsize = 0\<rparr>],
              [\<lparr>rid = ''hg38.chr1'', rseq = ''AC'', rstart = 103, rsize = 2\<rparr>,
               \<lparr>rid = ''panTro4.chr1'', rseq = ''AC'', rstart = 0, rsize = 2\<rparr>]]
      else None) =
     Inr [\<lparr>row_chrom = ''1'', row_start = 100, row_end = 110, row_ltr = ''chr1:100-110'',
           row_species = ''panTro4'', row_aligned_bases = 2, row_ltr_len = 10,
           row_coverage = 1 / 5\<rparr>]"
  by (simp add: touches_def gap_only_def check_erv_presence_def records_def summary_row_def
      round3_2_10 scan_unfold Let_def)

text \<open>The coverage scenario: the cached length is 10 and the coverage 3/10, rounded.\<close>

theorem cached_length_for_every_key_witness:
  "map_of [((''1'', 100 :: int, 110 :: int, ''chr1:100-110''), 10 :: int)]
     (''1'', 100, 110, ''chr1:100-110'') = Some (110 - 100) \<and>
   records \<lparr>agg_results = [((''1'', 100, 110, ''chr1:100-110'', ''panTro4''), 3)],
            ltr_lengths = [((''1'', 100, 110, ''chr1:100-110''), 10)]\<rparr> =
     [\<lparr>row_chrom = ''1'', row_start = 100, row_end = 110, row_ltr = ''chr1:100-110'',
       row_species = ''panTro4'', row_aligned_bases = 3, row_ltr_len = 110 - 100,
       row_coverage = round3 (true_div 3 (110 - 100))\<rparr>]"
proof -
  let ?mafs = "\<lambda>c. if c = ''1'' then
         Some [[\<lparr>rid = ''hg38.chr1'', rseq = ''ACGT--ACGT'', rstart = 95, rsize = 8\<rparr>,
                \<lparr>rid = ''panTro4.chr1'', rseq = ''ACGTAAACGT'', rstart = 0, rsize = 10\<rparr>]]
       else None"
  have s: "scan (ltr_regions [(''chr1'', 100, 110, ''chr1:100-110'')]) ?mafs =
      Inr \<lparr>agg_results = [((''1'', 100, 110, ''chr1:100-110'', ''panTro4''), 3)],
           ltr_lengths = [((''1'', 100, 110, ''chr1:100-110''), 10)]\<rparr>"
    by (simp add: scan_unfold)
  from cached_length_for_every_key [OF s] show ?thesis
    by (simp add: records_def summary_row_def)
qed

text \<open>The coverage scenario is well-formed: 3 of the region's 10 bases are aligned.\<close>

theorem aligned_bases_bounded_witness:
  "records \<lparr>agg_results = [((''1'', 100, 110, ''chr1:100-110'', ''panTro4''), 3)],
            ltr_lengths = [((''1'', 100, 110, ''chr1:100-110''), 10)]\<rparr> =
     [\<lparr>row_chrom = ''1'', row_start = 100, row_end = 110, row_ltr = ''chr1:100-110'',
       row_species = ''panTro4'', row_aligned_bases = 3, row_ltr_len = 10,
       row_coverage = 3 / 10\<rparr>] \<and>
   (0::int) \<le> 3 \<and> (3::int) \<le> 10"
proof -
  let ?mafs = "\<lambda>c. if c = ''1'' then
         Some [[\<lparr>rid = ''hg38.chr1'', rseq = ''ACGT--ACGT'', rstart = 95, rsize = 8\<rparr>,
                \<lparr>rid = ''panTro4.chr1'', rseq = ''ACGTAAACGT'', rstart = 0, rsize = 10\<rparr>]]
       else None"
  have s: "scan (ltr_regions [(''chr1'', 100, 110, ''chr1:100-110'')]) ?mafs =
      Inr \<lparr>agg_results = [((''1'', 100, 110, ''chr1:100-110'', ''panTro4''), 3)],
           ltr_lengths = [((''1'', 100, 110, ''chr1:100-110''), 10)]\<rparr>"
    by (simp add: scan_unfold)
  have w: "\<forall>chrom blocks. ?mafs chrom = Some blocks \<longrightarrow>
      (\<forall>a\<in>set blocks. wf_block a) \<and> nonoverlapping blocks"
    by (simp add: wf_block_def species_of_def nongap_count_def)
  from aligned_bases_bounded [OF s w] show ?thesis
    by (simp add: records_def summary_row_def round3_3_10)
qed

end
